theory Spec2Isabelle
  imports Complex_Main "HOL-Library.Sublist"
begin

section \<open>Text\<close>

text \<open>
  A Python \<open>str\<close> is a sequence of Unicode code points, so a text is a list of
  code points.  \<open>str\<close> turns an ASCII literal of the source into such a list.
\<close>

type_synonym ustring = "nat list"

definition str :: "string \<Rightarrow> ustring" where
  "str s = map of_char s"

text \<open>\<open>str.isspace\<close> for one code point; the class \<open>\s\<close> of \<open>re\<close> is the same set.\<close>

definition isspace :: "nat \<Rightarrow> bool" where
  "isspace c = ((9 \<le> c \<and> c \<le> 13) \<or> (28 \<le> c \<and> c \<le> 32) \<or> c = 133 \<or> c = 160
     \<or> c = 5760 \<or> (8192 \<le> c \<and> c \<le> 8202) \<or> c = 8232 \<or> c = 8233 \<or> c = 8239
     \<or> c = 8287 \<or> c = 12288)"

text \<open>
  JSON values as \<open>json.loads\<close> returns them: a number is an \<open>int\<close> or a \<open>float\<close>.
  The program reads of a number only whether it is zero and its \<open>str\<close>.
\<close>

datatype json =
    JNull
  | JBool bool
  | JInt int
  | JFloat rat
  | JStr ustring
  | JArr "json list"
  | JObj "(ustring \<times> json) list"

text \<open>
  What the Python runtime and its libraries decide outside the ASCII range, and the
  library functions the program calls on values of any shape.  Everything below is
  proved for every such host.
  \<^item> \<open>decimal_of c\<close>: the digit value of a non-ASCII code point of category Nd;
  \<^item> \<open>alnum_ext c\<close>: \<open>str.isalnum\<close> of a non-ASCII code point;
  \<^item> \<open>lower_ext c\<close>: \<open>str.lower\<close> of a non-ASCII code point;
  \<^item> \<open>charref_sub s\<close>: the character-reference substitution of \<open>html.unescape\<close>,
    which it applies to a text that contains an ampersand;
  \<^item> \<open>repr_json v\<close>: \<open>str(v)\<close> of a JSON value that is not a string.

  What is fixed of the Unicode tables is what the patterns of the program rely on: a
  whitespace character is neither a digit nor alphanumeric, the Hebrew letters (05D0 to
  05EA) are alphanumeric and no digits, and a digit is alphanumeric.
\<close>

record host =
  decimal_of :: "nat \<Rightarrow> nat option"
  alnum_ext :: "nat \<Rightarrow> bool"
  lower_ext :: "nat \<Rightarrow> ustring"
  charref_sub :: "ustring \<Rightarrow> ustring"
  repr_json :: "json \<Rightarrow> ustring"

definition ascii_digit :: "nat \<Rightarrow> bool" where
  "ascii_digit c = (48 \<le> c \<and> c \<le> 57)"

text \<open>The class \<open>\d\<close> of a \<open>str\<close> pattern: a decimal digit of any script.\<close>

definition hebrew_letter :: "nat \<Rightarrow> bool" where
  "hebrew_letter c = (1488 \<le> c \<and> c \<le> 1514)"

definition is_digit :: "host \<Rightarrow> nat \<Rightarrow> bool" where
  "is_digit H c =
     (if c < 128 then ascii_digit c
      else \<not> isspace c \<and> \<not> hebrew_letter c \<and> decimal_of H c \<noteq> None)"

definition digit_val :: "host \<Rightarrow> nat \<Rightarrow> nat" where
  "digit_val H c =
     (if c < 128 then c - 48 else (case decimal_of H c of Some v \<Rightarrow> v | None \<Rightarrow> 0))"

text \<open>\<open>int(s)\<close> on a text of digits.\<close>

definition py_int :: "host \<Rightarrow> ustring \<Rightarrow> nat" where
  "py_int H ds = foldl (\<lambda>a c. 10 * a + digit_val H c) 0 ds"

text \<open>The class \<open>\w\<close>: alphanumeric or underscore.\<close>

definition is_word :: "host \<Rightarrow> nat \<Rightarrow> bool" where
  "is_word H c =
     (if c < 128 then ascii_digit c \<or> (65 \<le> c \<and> c \<le> 90) \<or> c = 95 \<or> (97 \<le> c \<and> c \<le> 122)
      else hebrew_letter c \<or> (\<not> isspace c \<and> (alnum_ext H c \<or> decimal_of H c \<noteq> None)))"

text \<open>\<open>s.replace(",", "")\<close>.\<close>

definition remove_commas :: "ustring \<Rightarrow> ustring" where
  "remove_commas s = filter (\<lambda>c. c \<noteq> 44) s"

section \<open>Floating-point numbers\<close>

text \<open>
  Every \<open>float\<close> of the program comes from a text of digits, so none is negative
  and none is a NaN.  A finite one is the rational number it denotes; a text with too
  many digits gives \<open>inf\<close>.
\<close>

datatype pyfloat = Finite rat | Infinity

definition pow2 :: "int \<Rightarrow> rat" where
  "pow2 e = (if 0 \<le> e then 2 ^ nat e else 1 / 2 ^ nat (- e))"

fun floor_log2 :: "nat \<Rightarrow> nat" where
  "floor_log2 n = (if n < 2 then 0 else Suc (floor_log2 (n div 2)))"

text \<open>The integer part of the binary logarithm of \<open>n / d\<close>, both positive.\<close>

definition ilog2 :: "nat \<Rightarrow> nat \<Rightarrow> int" where
  "ilog2 n d =
     (let t = int (floor_log2 n) - int (floor_log2 d)
      in if pow2 t * of_nat d \<le> of_nat n then t else t - 1)"

text \<open>Rounding to the nearest integer, a tie to the even one.\<close>

definition round_half_even :: "rat \<Rightarrow> int" where
  "round_half_even q =
     (let f = \<lfloor>q\<rfloor>; r = q - of_int f
      in if r < 1 / 2 then f else if 1 / 2 < r then f + 1 else if even f then f else f + 1)"

text \<open>
  The binary64 number nearest to \<open>n / d\<close> (\<open>d\<close> positive): 53 bits of mantissa, the
  least exponent of a unit in the last place \<open>-1074\<close>, overflow to \<open>inf\<close>.
\<close>

definition overflow_bound :: rat where
  "overflow_bound = 2 ^ 1024"

definition binary64 :: "nat \<Rightarrow> nat \<Rightarrow> pyfloat" where
  "binary64 n d =
     (if n = 0 then Finite 0
      else let e = max (ilog2 n d - 52) (- 1074);
               m = round_half_even (of_nat n / (of_nat d * pow2 e));
               v = of_int m * pow2 e
           in if overflow_bound \<le> v then Infinity else Finite v)"

text \<open>
  \<open>float(s)\<close> for a text \<open>s\<close> of ASCII digits and dots, the only texts the program
  converts: at most one dot and at least one digit, or \<open>ValueError\<close> (\<open>None\<close>).
\<close>

definition ascii_int :: "ustring \<Rightarrow> nat" where
  "ascii_int ds = foldl (\<lambda>a c. 10 * a + (c - 48)) 0 ds"

definition py_float :: "ustring \<Rightarrow> pyfloat option" where
  "py_float s =
     (let ip = takeWhile ascii_digit s; r = dropWhile ascii_digit s
      in if r = [] then (if ip = [] then None else Some (binary64 (ascii_int ip) 1))
         else if hd r = 46 \<and> list_all ascii_digit (tl r) \<and> (ip \<noteq> [] \<or> tl r \<noteq> [])
         then Some (binary64 (ascii_int (ip @ tl r)) (10 ^ length (tl r)))
         else None)"

text \<open>Comparison of a float with a rational bound, and truth of a float.\<close>

fun float_le :: "pyfloat \<Rightarrow> rat \<Rightarrow> bool" where
  "float_le (Finite v) b = (v \<le> b)"
| "float_le Infinity b = False"

fun float_ge :: "pyfloat \<Rightarrow> rat \<Rightarrow> bool" where
  "float_ge (Finite v) b = (b \<le> v)"
| "float_ge Infinity b = True"

fun float_truthy :: "pyfloat \<Rightarrow> bool" where
  "float_truthy (Finite v) = (v \<noteq> 0)"
| "float_truthy Infinity = True"

section \<open>Regular expressions\<close>

text \<open>
  The patterns of the program use character classes, concatenation, alternation,
  greedy repetition of a class, one capturing group and the word boundary.  \<open>{m,n}\<close>,
  \<open>+\<close> and \<open>?\<close> are derived.
\<close>

datatype rx =
    Eps
  | Cls "nat \<Rightarrow> bool"
  | Cat rx rx
  | Alt rx rx
  | Star "nat \<Rightarrow> bool"
  | Grp rx
  | WordB

definition plus_rx :: "(nat \<Rightarrow> bool) \<Rightarrow> rx" where
  "plus_rx p = Cat (Cls p) (Star p)"

definition opt_rx :: "rx \<Rightarrow> rx" where
  "opt_rx r = Alt r Eps"

fun upto_rx :: "nat \<Rightarrow> (nat \<Rightarrow> bool) \<Rightarrow> rx" where
  "upto_rx 0 p = Eps"
| "upto_rx (Suc n) p = opt_rx (Cat (Cls p) (upto_rx n p))"

fun rep_range :: "nat \<Rightarrow> nat \<Rightarrow> (nat \<Rightarrow> bool) \<Rightarrow> rx" where
  "rep_range 0 n p = upto_rx n p"
| "rep_range (Suc m) n p = Cat (Cls p) (rep_range m (n - 1) p)"

text \<open>
  A literal character, and one under \<open>re.IGNORECASE\<close>.  The letters of the
  program's patterns (m, l, o, u, t, f) and its Hebrew letters have no other code point
  that matches them without regard to case than their ASCII upper-case form.
\<close>

definition lit :: "nat \<Rightarrow> nat \<Rightarrow> bool" where
  "lit c x = (x = c)"

definition ascii_lower :: "nat \<Rightarrow> nat" where
  "ascii_lower c = (if 65 \<le> c \<and> c \<le> 90 then c + 32 else c)"

definition lit_i :: "nat \<Rightarrow> nat \<Rightarrow> bool" where
  "lit_i c x = (ascii_lower x = ascii_lower c)"

fun word_rx :: "(nat \<Rightarrow> nat \<Rightarrow> bool) \<Rightarrow> ustring \<Rightarrow> rx" where
  "word_rx l [] = Eps"
| "word_rx l (c # cs) = Cat (Cls (l c)) (word_rx l cs)"

text \<open>A sequence of patterns, and a choice among patterns, first to last.\<close>

fun seq_rx :: "rx list \<Rightarrow> rx" where
  "seq_rx [] = Eps"
| "seq_rx (r # rs) = Cat r (seq_rx rs)"

fun alts_rx :: "rx list \<Rightarrow> rx" where
  "alts_rx [] = Cls (\<lambda>c. False)"
| "alts_rx [r] = r"
| "alts_rx (r # rs) = Alt r (alts_rx rs)"

text \<open>
  The backtracking matcher.  It works through a stack of what is left to match, with
  the character before the position (for the word boundary), the text left, whether the
  position is inside the group, and the text captured so far.  It returns the captured
  text and the text left after the match.  Alternatives are tried left to right and a
  repetition takes as much as it can first, as \<open>re\<close> does.
\<close>

datatype item = Rx rx | GrpEnd

fun rx_weight :: "rx \<Rightarrow> nat" where
  "rx_weight (Cat a b) = rx_weight a + rx_weight b + 1"
| "rx_weight (Alt a b) = rx_weight a + rx_weight b + 1"
| "rx_weight (Grp a) = rx_weight a + 2"
| "rx_weight r = 1"

fun item_weight :: "item \<Rightarrow> nat" where
  "item_weight (Rx r) = rx_weight r"
| "item_weight GrpEnd = 1"

definition at_boundary :: "(nat \<Rightarrow> bool) \<Rightarrow> nat option \<Rightarrow> ustring \<Rightarrow> bool" where
  "at_boundary w prev s =
     ((case prev of None \<Rightarrow> False | Some c \<Rightarrow> w c) \<noteq> (case s of [] \<Rightarrow> False | c # _ \<Rightarrow> w c))"

function (sequential) bt ::
  "(nat \<Rightarrow> bool) \<Rightarrow> item list \<Rightarrow> nat option \<Rightarrow> ustring \<Rightarrow> bool \<Rightarrow> ustring \<Rightarrow> (ustring \<times> ustring) option"
where
  "bt w [] prev s ing cap = Some (cap, s)"
| "bt w (GrpEnd # k) prev s ing cap = bt w k prev s False cap"
| "bt w (Rx Eps # k) prev s ing cap = bt w k prev s ing cap"
| "bt w (Rx (Cls p) # k) prev [] ing cap = None"
| "bt w (Rx (Cls p) # k) prev (c # s) ing cap =
     (if p c then bt w k (Some c) s ing (if ing then cap @ [c] else cap) else None)"
| "bt w (Rx (Cat a b) # k) prev s ing cap = bt w (Rx a # Rx b # k) prev s ing cap"
| "bt w (Rx (Alt a b) # k) prev s ing cap =
     (case bt w (Rx a # k) prev s ing cap of
        Some r \<Rightarrow> Some r
      | None \<Rightarrow> bt w (Rx b # k) prev s ing cap)"
| "bt w (Rx (Star p) # k) prev [] ing cap = bt w k prev [] ing cap"
| "bt w (Rx (Star p) # k) prev (c # s) ing cap =
     (if p c
      then (case bt w (Rx (Star p) # k) (Some c) s ing (if ing then cap @ [c] else cap) of
              Some r \<Rightarrow> Some r
            | None \<Rightarrow> bt w k prev (c # s) ing cap)
      else bt w k prev (c # s) ing cap)"
| "bt w (Rx (Grp a) # k) prev s ing cap = bt w (Rx a # GrpEnd # k) prev s True []"
| "bt w (Rx WordB # k) prev s ing cap =
     (if at_boundary w prev s then bt w k prev s ing cap else None)"
  by pat_completeness auto
termination
  by (relation "measures [\<lambda>(w, k, prev, s, ing, cap). length s,
                          \<lambda>(w, k, prev, s, ing, cap). sum_list (map item_weight k)]") auto

text \<open>
  \<open>re.search\<close>: the first position, from the left, where the pattern matches; the
  result is the text of group 1.
\<close>

fun search_from :: "(nat \<Rightarrow> bool) \<Rightarrow> rx \<Rightarrow> nat option \<Rightarrow> ustring \<Rightarrow> ustring option" where
  "search_from w r prev [] = map_option fst (bt w [Rx r] prev [] False [])"
| "search_from w r prev (c # s) =
     (case bt w [Rx r] prev (c # s) False [] of
        Some m \<Rightarrow> Some (fst m)
      | None \<Rightarrow> search_from w r (Some c) s)"

definition re_search :: "host \<Rightarrow> rx \<Rightarrow> ustring \<Rightarrow> ustring option" where
  "re_search H r s = search_from (is_word H) r None s"

section \<open>Utilities\<close>

text \<open>\<open>PRICE_RE = ([0-9]+(?:[.,][0-9]+)?)\<close>\<close>

definition price_number :: rx where
  "price_number =
     Grp (Cat (plus_rx ascii_digit)
              (opt_rx (Cat (Cls (\<lambda>c. c = 46 \<or> c = 44)) (plus_rx ascii_digit))))"

definition PRICE_RE :: rx where
  "PRICE_RE = price_number"

text \<open>
  \<open>ML_RE = (\d{2,5})\s*(?:ml|...|...|ML|Ml)\b\<close> with \<open>re.IGNORECASE\<close>; the second
  and third unit tokens are the Hebrew abbreviations, with and without the gershayim
  (code points 05DE 05F4 05DC and 05DE 05DC).
\<close>

definition unit_tokens :: "ustring list" where
  "unit_tokens = [str ''ml'', [1502, 1524, 1500], [1502, 1500], str ''ML'', str ''Ml'']"

definition ML_RE :: "host \<Rightarrow> rx" where
  "ML_RE H =
     seq_rx [Grp (rep_range 2 5 (is_digit H)), Star isspace,
             alts_rx (map (word_rx lit_i) unit_tokens), WordB]"

text \<open>\<open>ML_NUMBER_RE = (\d{2,5})\<close>\<close>

definition ML_NUMBER_RE :: "host \<Rightarrow> rx" where
  "ML_NUMBER_RE H = Grp (rep_range 2 5 (is_digit H))"

text \<open>
  \<open>float\<close> of a text that \<open>PRICE_RE\<close> matched, without its commas, never raises, and
  neither does \<open>int\<close> of two to five digits; the handlers of the source are the
  \<open>None\<close> case of \<open>py_float\<close> here.
\<close>

definition parse_price :: "host \<Rightarrow> ustring \<Rightarrow> pyfloat option" where
  "parse_price H text =
     (if text = [] then None
      else case re_search H PRICE_RE (remove_commas text) of
             None \<Rightarrow> None
           | Some g \<Rightarrow> py_float g)"

definition extract_ml :: "host \<Rightarrow> ustring \<Rightarrow> nat option" where
  "extract_ml H text =
     (if text = [] then None
      else let cleaned = remove_commas text
           in case re_search H (ML_RE H) cleaned of
                Some g \<Rightarrow> Some (py_int H g)
              | None \<Rightarrow>
                  (case re_search H (ML_NUMBER_RE H) cleaned of
                     Some g \<Rightarrow>
                       (let ml = py_int H g in if 50 \<le> ml \<and> ml \<le> 3000 then Some ml else None)
                   | None \<Rightarrow> None))"

text \<open>\<open>html.unescape\<close> returns a text without an ampersand as it is.\<close>

definition unescape :: "host \<Rightarrow> ustring \<Rightarrow> ustring" where
  "unescape H s = (if 38 \<in> set s then charref_sub H s else s)"

text \<open>\<open>re.sub(r"\s+", " ", s)\<close>: every maximal run of whitespace becomes one space.\<close>

function sub_ws :: "ustring \<Rightarrow> ustring" where
  "sub_ws [] = []"
| "sub_ws (c # cs) = (if isspace c then 32 # sub_ws (dropWhile isspace cs) else c # sub_ws cs)"
  by pat_completeness auto
termination
  by (relation "measure length") (auto simp: less_Suc_eq_le length_dropWhile_le)

definition py_strip :: "ustring \<Rightarrow> ustring" where
  "py_strip s = rev (dropWhile isspace (rev (dropWhile isspace s)))"

definition normalize_name :: "host \<Rightarrow> ustring \<Rightarrow> ustring" where
  "normalize_name H name = py_strip (sub_ws (unescape H name))"

section \<open>Product pages\<close>

datatype error = TypeError | AttributeError

text \<open>Truth of a JSON value in Python.\<close>

fun truthy :: "json \<Rightarrow> bool" where
  "truthy JNull = False"
| "truthy (JBool b) = b"
| "truthy (JInt i) = (i \<noteq> 0)"
| "truthy (JFloat q) = (q \<noteq> 0)"
| "truthy (JStr s) = (s \<noteq> [])"
| "truthy (JArr xs) = (xs \<noteq> [])"
| "truthy (JObj kvs) = (kvs \<noteq> [])"

text \<open>\<open>d.get(k)\<close> on a JSON object; \<open>None\<close> is \<open>JNull\<close>.\<close>

definition jget :: "(ustring \<times> json) list \<Rightarrow> string \<Rightarrow> json" where
  "jget kvs k = (case map_of kvs (str k) of Some v \<Rightarrow> v | None \<Rightarrow> JNull)"

text \<open>\<open>str(v)\<close>.\<close>

definition py_str :: "host \<Rightarrow> json \<Rightarrow> ustring" where
  "py_str H v = (case v of JStr s \<Rightarrow> s | _ \<Rightarrow> repr_json H v)"

text \<open>
  \<open>normalize_name(v)\<close> on a JSON value: \<open>v or ""\<close> is the empty text for a false
  value; a true value that is not a text makes \<open>html.unescape\<close> or \<open>re.sub\<close> raise
  \<open>TypeError\<close>.
\<close>

definition normalize_name_json :: "host \<Rightarrow> json \<Rightarrow> error + ustring" where
  "normalize_name_json H v =
     (if \<not> truthy v then Inr (normalize_name H [])
      else case v of JStr s \<Rightarrow> Inr (normalize_name H s) | _ \<Rightarrow> Inl TypeError)"

text \<open>
  The dictionary an extraction strategy returns, with its three keys.  A key that is
  missing and a key whose value is \<open>None\<close> are the same to every reader of the
  dictionary (\<open>data.get(k)\<close>, \<open>if v\<close>, \<open>is None\<close>), so both are \<open>None\<close> here.
\<close>

record chunk =
  name :: "ustring option"
  price_value :: "pyfloat option"
  bottle_size_ml :: "nat option"

definition empty_chunk :: chunk where
  "empty_chunk = \<lparr>name = None, price_value = None, bottle_size_ml = None\<rparr>"

text \<open>\<open>data.get(k)\<close> is true.\<close>

definition has_name :: "chunk \<Rightarrow> bool" where
  "has_name d = (case name d of Some s \<Rightarrow> s \<noteq> [] | None \<Rightarrow> False)"

definition has_price :: "chunk \<Rightarrow> bool" where
  "has_price d = (case price_value d of Some p \<Rightarrow> float_truthy p | None \<Rightarrow> False)"

definition has_ml :: "chunk \<Rightarrow> bool" where
  "has_ml d = (case bottle_size_ml d of Some n \<Rightarrow> n \<noteq> 0 | None \<Rightarrow> False)"

text \<open>
  The parsed document, as the answers of \<open>BeautifulSoup\<close> to the queries of the
  program.  A tag is its attributes; an element has attributes and the text
  \<open>get_text(" ", strip=True)\<close>.
  \<^item> \<open>ld_json_scripts\<close>: for every \<open>script\<close> tag of type \<open>application/ld+json\<close>, in
    document order, \<open>json.loads\<close> of its text, \<open>None\<close> when that raises;
  \<^item> \<open>find_meta a v\<close>: \<open>soup.find("meta", a=v)\<close>;
  \<^item> \<open>select_one sel\<close>: \<open>soup.select_one(sel)\<close>;
  \<^item> \<open>find_h1\<close>: \<open>soup.find("h1")\<close>; \<open>find_span_price\<close>:
    \<open>soup.find("span", {"class": "price"})\<close>;
  \<^item> \<open>select_tables\<close>: \<open>soup.select("table, .additional-attributes-wrapper")\<close>.
\<close>

type_synonym tag = "(string \<times> ustring) list"

record element =
  attrs :: tag
  get_text :: ustring

record soup =
  ld_json_scripts :: "json option list"
  find_meta :: "string \<Rightarrow> string \<Rightarrow> tag option"
  select_one :: "string \<Rightarrow> element option"
  find_h1 :: "element option"
  find_span_price :: "element option"
  select_tables :: "element list"

text \<open>\<open>tag.get(a, "")\<close>.\<close>

definition attr :: "tag \<Rightarrow> string \<Rightarrow> ustring" where
  "attr t a = (case map_of t a of Some v \<Rightarrow> v | None \<Rightarrow> [])"

subsection \<open>Structured metadata\<close>

text \<open>
  \<open>offers.get("price") or offers.get("priceSpecification", {}).get("price")\<close>: the
  second operand is evaluated when the first is false, and raises \<open>AttributeError\<close>
  when the value under \<open>priceSpecification\<close> is not an object.
\<close>

definition offer_price :: "(ustring \<times> json) list \<Rightarrow> error + json" where
  "offer_price offers =
     (if truthy (jget offers ''price'') then Inr (jget offers ''price'')
      else case map_of offers (str ''priceSpecification'') of
             None \<Rightarrow> Inr JNull
           | Some (JObj spec) \<Rightarrow> Inr (jget spec ''price'')
           | Some _ \<Rightarrow> Inl AttributeError)"

text \<open>
  The body of the inner loop of \<open>_from_json_ld\<close> for one candidate \<open>obj\<close> typed
  \<open>Product\<close>, statement by statement: the name, the price of the offer, and the size
  read off the description and the name.
\<close>

definition ld_name :: "host \<Rightarrow> (ustring \<times> json) list \<Rightarrow> chunk \<Rightarrow> error + chunk" where
  "ld_name H obj data =
     (if map_of obj (str ''name'') \<noteq> None \<and> \<not> has_name data
      then (case normalize_name_json H (jget obj ''name'') of
              Inl e \<Rightarrow> Inl e
            | Inr n \<Rightarrow> Inr (data\<lparr>name := Some n\<rparr>))
      else Inr data)"

definition ld_price :: "host \<Rightarrow> (ustring \<times> json) list \<Rightarrow> chunk \<Rightarrow> error + chunk" where
  "ld_price H obj data =
     (case jget obj ''offers'' of
        JObj offers \<Rightarrow>
          (case offer_price offers of
             Inl e \<Rightarrow> Inl e
           | Inr price \<Rightarrow>
               Inr (if truthy price \<and> \<not> has_price data
                    then data\<lparr>price_value := parse_price H (py_str H price)\<rparr>
                    else data))
      | _ \<Rightarrow> Inr data)"

definition ld_size :: "host \<Rightarrow> (ustring \<times> json) list \<Rightarrow> chunk \<Rightarrow> chunk" where
  "ld_size H obj data =
     (let desc_text = py_str H (case map_of obj (str ''description'') of
                                  Some v \<Rightarrow> v | None \<Rightarrow> JStr [])
                      @ [32]
                      @ py_str H (case map_of obj (str ''name'') of
                                    Some v \<Rightarrow> v | None \<Rightarrow> JStr []);
          ml = extract_ml H desc_text
      in if (case ml of Some n \<Rightarrow> n \<noteq> 0 | None \<Rightarrow> False) \<and> \<not> has_ml data
         then data\<lparr>bottle_size_ml := ml\<rparr>
         else data)"

definition json_ld_object :: "host \<Rightarrow> chunk \<Rightarrow> json \<Rightarrow> error + chunk" where
  "json_ld_object H data obj =
     (case obj of
        JObj kvs \<Rightarrow>
          if jget kvs ''@type'' = JStr (str ''Product'')
             \<or> jget kvs ''@type'' = JArr [JStr (str ''Product'')]
          then (case ld_name H kvs data of
                  Inl e \<Rightarrow> Inl e
                | Inr d1 \<Rightarrow>
                    (case ld_price H kvs d1 of
                       Inl e \<Rightarrow> Inl e
                     | Inr d2 \<Rightarrow> Inr (ld_size H kvs d2)))
          else Inr data
      | _ \<Rightarrow> Inr data)"

fun json_ld_objects :: "host \<Rightarrow> chunk \<Rightarrow> json list \<Rightarrow> error + chunk" where
  "json_ld_objects H data [] = Inr data"
| "json_ld_objects H data (obj # objs) =
     (case json_ld_object H data obj of
        Inl e \<Rightarrow> Inl e
      | Inr d \<Rightarrow> json_ld_objects H d objs)"

text \<open>The outer loop: a payload that is a list gives its elements, any other one itself.\<close>

fun json_ld_scripts :: "host \<Rightarrow> chunk \<Rightarrow> json option list \<Rightarrow> error + chunk" where
  "json_ld_scripts H data [] = Inr data"
| "json_ld_scripts H data (None # tags) = json_ld_scripts H data tags"
| "json_ld_scripts H data (Some payload # tags) =
     (case json_ld_objects H data (case payload of JArr xs \<Rightarrow> xs | _ \<Rightarrow> [payload]) of
        Inl e \<Rightarrow> Inl e
      | Inr d \<Rightarrow> json_ld_scripts H d tags)"

definition from_json_ld :: "host \<Rightarrow> soup \<Rightarrow> error + chunk" where
  "from_json_ld H sp = json_ld_scripts H empty_chunk (ld_json_scripts sp)"

subsection \<open>Meta tags\<close>

definition meta_price_step :: "host \<Rightarrow> soup \<Rightarrow> chunk \<Rightarrow> string \<times> string \<Rightarrow> chunk" where
  "meta_price_step H sp data sel =
     (case find_meta sp (fst sel) (snd sel) of
        Some t \<Rightarrow>
          if \<not> has_price data
          then data\<lparr>price_value :=
                 parse_price H (if attr t ''content'' \<noteq> [] then attr t ''content''
                                else attr t ''value'')\<rparr>
          else data
      | None \<Rightarrow> data)"

definition from_meta_tags :: "host \<Rightarrow> soup \<Rightarrow> chunk" where
  "from_meta_tags H sp =
     (let d0 = empty_chunk;
          d1 = (case find_meta sp ''property'' ''og:title'' of
                  Some mt \<Rightarrow> d0\<lparr>name := Some (normalize_name H (attr mt ''content''))\<rparr>
                | None \<Rightarrow> d0);
          d2 = foldl (meta_price_step H sp) d1
                 [(''itemprop'', ''price''), (''property'', ''product:price:amount''),
                  (''name'', ''twitter:data1'')]
      in case find_meta sp ''property'' ''og:description'' of
           Some md \<Rightarrow> d2\<lparr>bottle_size_ml := extract_ml H (attr md ''content'')\<rparr>
         | None \<Rightarrow> d2)"

subsection \<open>DOM heuristics\<close>

text \<open>\<open>a or b\<close> on the results of two queries: a tag is always true.\<close>

definition or_else :: "'a option \<Rightarrow> 'a option \<Rightarrow> 'a option" where
  "or_else a b = (case a of Some x \<Rightarrow> Some x | None \<Rightarrow> b)"

text \<open>\<open>sep.join(xs)\<close>.\<close>

fun join :: "ustring \<Rightarrow> ustring list \<Rightarrow> ustring" where
  "join sep [] = []"
| "join sep [x] = x"
| "join sep (x # xs) = x @ sep @ join sep xs"

definition from_dom_selectors :: "host \<Rightarrow> soup \<Rightarrow> chunk" where
  "from_dom_selectors H sp =
     (let title = or_else (select_one sp ''h1.page-title .base'')
                    (or_else (select_one sp ''h1 .base'')
                       (or_else (select_one sp ''h1.product-name'') (find_h1 sp)));
          d0 = empty_chunk;
          d1 = (case title of
                  Some t \<Rightarrow> d0\<lparr>name := Some (normalize_name H (get_text t))\<rparr>
                | None \<Rightarrow> d0);
          price_el = or_else (select_one sp ''span.price[data-price-amount]'')
                       (or_else (select_one sp ''.price-wrapper .price'') (find_span_price sp));
          d2 = (case price_el of
                  Some el \<Rightarrow>
                    d1\<lparr>price_value :=
                      parse_price H (case map_of (attrs el) ''data-price-amount'' of
                                       Some amt \<Rightarrow> if amt \<noteq> [] then amt else get_text el
                                     | None \<Rightarrow> get_text el)\<rparr>
                | None \<Rightarrow> d1);
          blobs = map get_text
                    (List.map_filter (select_one sp)
                       [''#description'', ''.product.attribute.description'',
                        ''.product-short-description'', ''.product-info-main''])
                  @ (case title of Some t \<Rightarrow> [get_text t] | None \<Rightarrow> [])
                  @ map get_text (select_tables sp);
          blob = join (str '' | '') blobs
      in if blob \<noteq> [] then d2\<lparr>bottle_size_ml := extract_ml H blob\<rparr> else d2)"

subsection \<open>The gate and the merge\<close>

text \<open>
  \<open>s.lower()\<close>, and \<open>"product" in s\<close> as \<open>sublist\<close>.
\<close>

definition py_lower :: "host \<Rightarrow> ustring \<Rightarrow> ustring" where
  "py_lower H s = concat (map (\<lambda>c. if c < 128 then [ascii_lower c] else lower_ext H c) s)"

definition page_looks_like_product :: "host \<Rightarrow> soup \<Rightarrow> error + bool" where
  "page_looks_like_product H sp =
     (if (case find_meta sp ''property'' ''og:type'' of
            Some ogtype \<Rightarrow> sublist (str ''product'') (py_lower H (attr ogtype ''content''))
          | None \<Rightarrow> False)
      then Inr True
      else case from_json_ld H sp of
             Inl e \<Rightarrow> Inl e
           | Inr j \<Rightarrow> Inr (has_name j))"

text \<open>
  \<open>for k, v in chunk.items(): if v and not data.get(k): data[k] = v\<close>
\<close>

definition merge_chunk :: "chunk \<Rightarrow> chunk \<Rightarrow> chunk" where
  "merge_chunk data c =
     \<lparr>name = (if has_name c \<and> \<not> has_name data then name c else name data),
      price_value = (if has_price c \<and> \<not> has_price data then price_value c else price_value data),
      bottle_size_ml = (if has_ml c \<and> \<not> has_ml data then bottle_size_ml c
                        else bottle_size_ml data)\<rparr>"

text \<open>
  The loop over the strategies, in the order of the tuple
  \<open>(_from_json_ld, _from_meta_tags, _from_dom_selectors)\<close>; an exception of a strategy
  ends it.
\<close>

definition extractors :: "(host \<Rightarrow> soup \<Rightarrow> error + chunk) list" where
  "extractors =
     [from_json_ld, \<lambda>H sp. Inr (from_meta_tags H sp), \<lambda>H sp. Inr (from_dom_selectors H sp)]"

fun run_extractors ::
  "host \<Rightarrow> soup \<Rightarrow> chunk \<Rightarrow> (host \<Rightarrow> soup \<Rightarrow> error + chunk) list \<Rightarrow> error + chunk" where
  "run_extractors H sp data [] = Inr data"
| "run_extractors H sp data (extractor # rest) =
     (case extractor H sp of
        Inl e \<Rightarrow> Inl e
      | Inr c \<Rightarrow> run_extractors H sp (merge_chunk data c) rest)"

text \<open>
  The last resort for the price: a number after the shekel sign (code point 20AA) in
  the raw page, \<open>re.search(r"(sign)\s*([0-9]+(?:[.,][0-9]+)?)", html)\<close>, converted without
  its commas.
\<close>

definition SHEKEL_RE :: rx where
  "SHEKEL_RE = seq_rx [Cls (lit 8362), Star isspace, price_number]"

definition salvage_price :: "host \<Rightarrow> ustring \<Rightarrow> pyfloat option" where
  "salvage_price H html =
     (case re_search H SHEKEL_RE html of
        Some g \<Rightarrow> py_float (remove_commas g)
      | None \<Rightarrow> None)"

record product =
  rec_name :: ustring
  rec_price_value :: pyfloat
  rec_bottle_size_ml :: nat
  rec_url :: ustring

text \<open>The part of \<open>parse_pdp\<close> after the merge.\<close>

definition finish_pdp :: "host \<Rightarrow> ustring \<Rightarrow> ustring \<Rightarrow> chunk \<Rightarrow> product option" where
  "finish_pdp H html url data =
     (let nm = normalize_name H (case name data of Some s \<Rightarrow> s | None \<Rightarrow> []);
          price = (case price_value data of
                     Some p \<Rightarrow> Some p
                   | None \<Rightarrow> salvage_price H html);
          ml = (case bottle_size_ml data of
                  Some n \<Rightarrow> if n \<noteq> 0 then n else 750
                | None \<Rightarrow> 750)
      in if nm = [] then None
         else case price of
                None \<Rightarrow> None
              | Some p \<Rightarrow>
                  Some \<lparr>rec_name = nm, rec_price_value = p, rec_bottle_size_ml = ml,
                        rec_url = url\<rparr>)"

text \<open>
  \<open>parse_pdp\<close>.  \<open>bs\<close> is the HTML parser, \<open>None\<close> when the import of
  \<open>BeautifulSoup\<close> failed.
\<close>

definition parse_pdp ::
  "host \<Rightarrow> (ustring \<Rightarrow> soup) option \<Rightarrow> ustring \<Rightarrow> ustring \<Rightarrow> error + product option" where
  "parse_pdp H bs html url =
     (if html = [] then Inr None
      else case bs of
             None \<Rightarrow> Inr None
           | Some parse \<Rightarrow>
               (let sp = parse html
                in case page_looks_like_product H sp of
                     Inl e \<Rightarrow> Inl e
                   | Inr False \<Rightarrow> Inr None
                   | Inr True \<Rightarrow>
                       (case run_extractors H sp empty_chunk extractors of
                          Inl e \<Rightarrow> Inl e
                        | Inr data \<Rightarrow> Inr (finish_pdp H html url data))))"

section \<open>Ratings\<close>

subsection \<open>Rating extraction\<close>

text \<open>
  \<open>"rating"\s*:\s*{[^}]*"average"\s*:\s*([0-9.]+)\<close>; the double quote is code point 34,
  the colon 58, the braces 123 and 125.
\<close>

definition RATING_RE :: rx where
  "RATING_RE =
     seq_rx [word_rx lit ([34] @ str ''rating'' @ [34]), Star isspace, Cls (lit 58),
             Star isspace, Cls (lit 123), Star (\<lambda>c. c \<noteq> 125),
             word_rx lit ([34] @ str ''average'' @ [34]), Star isspace, Cls (lit 58),
             Star isspace, Grp (plus_rx (\<lambda>c. ascii_digit c \<or> c = 46))]"

text \<open>\<open>([3-5]\.[0-9])\s*(?:/|out of)?\s*5\<close> with \<open>re.I\<close>.\<close>

definition RATING_TEXT_RE :: rx where
  "RATING_TEXT_RE =
     seq_rx [Grp (seq_rx [Cls (\<lambda>c. 51 \<le> c \<and> c \<le> 53), Cls (lit 46), Cls ascii_digit]),
             Star isspace, opt_rx (Alt (Cls (lit 47)) (word_rx lit_i (str ''out of''))),
             Star isspace, Cls (lit 53)]"

text \<open>\<open>2.5 <= val <= 5.0\<close>\<close>

definition plausible :: "pyfloat \<Rightarrow> bool" where
  "plausible val = (float_ge val (5 / 2) \<and> float_le val 5)"

text \<open>
  What each of the two \<open>if m:\<close> blocks does with a match: the value of the group when
  \<open>float\<close> accepts it and it is plausible; otherwise the block falls through.
\<close>

definition accepted_rating :: "ustring option \<Rightarrow> pyfloat option" where
  "accepted_rating m =
     (case m of
        None \<Rightarrow> None
      | Some g \<Rightarrow>
          (case py_float g of
             Some val \<Rightarrow> if plausible val then Some val else None
           | None \<Rightarrow> None))"

definition extract_vivino_rating_from_html :: "host \<Rightarrow> ustring \<Rightarrow> pyfloat option" where
  "extract_vivino_rating_from_html H html =
     (case accepted_rating (re_search H RATING_RE html) of
        Some val \<Rightarrow> Some val
      | None \<Rightarrow> accepted_rating (re_search H RATING_TEXT_RE html))"

text \<open>
  \<open>round(x, 2)\<close>: the decimal with two places nearest to the exact value of \<open>x\<close>, a tie
  to the even one, converted back to binary64.
\<close>

definition py_round2 :: "pyfloat \<Rightarrow> pyfloat" where
  "py_round2 x =
     (case x of
        Infinity \<Rightarrow> Infinity
      | Finite v \<Rightarrow> binary64 (nat (round_half_even (v * 100))) 100)"

subsection \<open>The network\<close>

text \<open>
  The program is run against a network that answers each request, and a random number
  generator.  What the program does to them is the trace: the pauses it takes
  (\<open>asyncio.sleep(random.uniform(lo, hi))\<close> of \<open>fetch_text\<close>, of which only the bounds are
  kept), the delays it sleeps in the backoff loop, and the GET requests it issues, with
  their query parameters.  The answer to a request and the value of a draw may depend on
  everything that happened before.  A reply has a status and a body, \<open>None\<close> when reading
  the body raises; \<open>Failure\<close> is a request that raises (a timeout, a connection error).
\<close>

type_synonym params = "(string \<times> ustring) list"

datatype event = Pause rat rat | Sleep pyfloat | Request ustring params

datatype reply = Reply nat "ustring option" | Failure

record network =
  respond :: "event list \<Rightarrow> reply"
  random_bits :: "event list \<Rightarrow> nat"

text \<open>\<open>random.random()\<close>: a multiple of \<open>2^-53\<close> in \<open>[0, 1)\<close>.\<close>

definition random_random :: "network \<Rightarrow> event list \<Rightarrow> pyfloat" where
  "random_random N tr = Finite (of_nat (random_bits N tr mod 2 ^ 53) / 2 ^ 53)"

definition BING_SEARCH_URL :: ustring where
  "BING_SEARCH_URL = str ''https://www.bing.com/search''"

definition VIVINO_FALLBACK_SEARCH :: ustring where
  "VIVINO_FALLBACK_SEARCH = str ''https://www.vivino.com/search/wines''"

text \<open>\<open>fetch_text\<close>: the text of a reply with status 200, with the trace extended.\<close>

definition fetch_text ::
  "network \<Rightarrow> event list \<Rightarrow> ustring \<Rightarrow> params \<Rightarrow> rat \<Rightarrow> rat \<Rightarrow> ustring option \<times> event list" where
  "fetch_text N tr url ps min_delay max_delay =
     (let tr' = tr @ [Pause min_delay max_delay, Request url ps]
      in (case respond N tr' of
            Reply status body \<Rightarrow> if status \<noteq> 200 then None else body
          | Failure \<Rightarrow> None,
          tr'))"

subsection \<open>Backoff\<close>

text \<open>
  Arithmetic of binary64 on the floats of the program, which are not negative: the
  exact result, rounded.  A delay is never multiplied by zero.
\<close>

definition float_of_rat :: "rat \<Rightarrow> pyfloat" where
  "float_of_rat q = (case quotient_of q of (n, d) \<Rightarrow> binary64 (nat n) (nat d))"

fun fmul :: "pyfloat \<Rightarrow> pyfloat \<Rightarrow> pyfloat" where
  "fmul (Finite a) (Finite b) = float_of_rat (a * b)"
| "fmul a b = Infinity"

fun fadd :: "pyfloat \<Rightarrow> pyfloat \<Rightarrow> pyfloat" where
  "fadd (Finite a) (Finite b) = float_of_rat (a + b)"
| "fadd a b = Infinity"

text \<open>\<open>1.7 + random.random() * 0.3\<close>\<close>

definition jitter_factor :: "network \<Rightarrow> event list \<Rightarrow> pyfloat" where
  "jitter_factor N tr = fadd (binary64 17 10) (fmul (random_random N tr) (binary64 3 10))"

definition max_tries :: nat where
  "max_tries = 6"

text \<open>
  The loop \<open>for attempt in range(1, max_tries + 1)\<close> of
  \<open>_fetch_vivino_search_with_backoff\<close>, from \<open>attempt\<close> on.  \<open>raise_for_status\<close> raises for
  a status of 400 or more; every exception multiplies the delay by 1.4.
\<close>

function backoff_loop ::
  "network \<Rightarrow> params \<Rightarrow> nat \<Rightarrow> pyfloat \<Rightarrow> event list \<Rightarrow> ustring option \<times> event list" where
  "backoff_loop N ps attempt delay tr =
     (if max_tries < attempt then (None, tr)
      else let tr' = tr @ [Sleep (if 1 < attempt then delay else Finite 0),
                           Request VIVINO_FALLBACK_SEARCH ps]
           in case respond N tr' of
                Reply status body \<Rightarrow>
                  if status = 429
                  then backoff_loop N ps (attempt + 1) (fmul delay (jitter_factor N tr')) tr'
                  else if 400 \<le> status
                  then backoff_loop N ps (attempt + 1) (fmul delay (binary64 14 10)) tr'
                  else (case body of
                          Some text \<Rightarrow> (Some text, tr')
                        | None \<Rightarrow>
                            backoff_loop N ps (attempt + 1) (fmul delay (binary64 14 10)) tr')
              | Failure \<Rightarrow> backoff_loop N ps (attempt + 1) (fmul delay (binary64 14 10)) tr')"
  by pat_completeness auto
termination
  by (relation "measure (\<lambda>(N, ps, attempt, delay, tr). Suc max_tries - attempt)") auto

definition fetch_vivino_search_with_backoff ::
  "network \<Rightarrow> params \<Rightarrow> event list \<Rightarrow> ustring option \<times> event list" where
  "fetch_vivino_search_with_backoff N ps tr = backoff_loop N ps 1 (Finite 2) tr"

subsection \<open>Lookup\<close>

text \<open>
  A cache entry is a match or the negative marker \<open>None\<close>; a name that was never looked
  up has no entry.
\<close>

record match_result =
  vivino_url :: ustring
  vivino_rating :: pyfloat

record world =
  vivino_cache :: "ustring \<rightharpoonup> match_result option"
  trace :: "event list"

text \<open>
  The claims about the lookup do not depend on how a name becomes a query and how links
  are read off a result page, so \<open>vivino_lookup\<close> takes these as parameters:
  \<open>he_to_en_query\<close> is \<open>_he_to_en_query\<close>, \<open>bing_links\<close> is
  \<open>_extract_all_vivino_links_from_bing\<close>, and \<open>fallback_links\<close> is the loop over
  \<open>re.finditer\<close> with \<open>urljoin\<close> and the removal of duplicates.
\<close>

record link_reader =
  he_to_en_query :: "ustring \<Rightarrow> ustring"
  bing_links :: "ustring \<Rightarrow> ustring list"
  fallback_links :: "ustring \<Rightarrow> ustring list"

text \<open>The loop \<open>for vu in viv_urls[:3]\<close>, on what is left of the three candidates.\<close>

fun scan_candidates ::
  "host \<Rightarrow> network \<Rightarrow> ustring list \<Rightarrow> event list \<Rightarrow> match_result option \<times> event list" where
  "scan_candidates H N [] tr = (None, tr)"
| "scan_candidates H N (vu # vus) tr =
     (case fetch_text N tr vu [] (3 / 5) (6 / 5) of
        (None, tr') \<Rightarrow> scan_candidates H N vus tr'
      | (Some page, tr') \<Rightarrow>
          if page = [] then scan_candidates H N vus tr'
          else (case extract_vivino_rating_from_html H page of
                  Some rating \<Rightarrow>
                    (Some \<lparr>vivino_url = vu, vivino_rating = py_round2 rating\<rparr>, tr')
                | None \<Rightarrow> scan_candidates H N vus tr'))"

definition vivino_lookup ::
  "host \<Rightarrow> link_reader \<Rightarrow> network \<Rightarrow> world \<Rightarrow> ustring \<Rightarrow> match_result option \<times> world" where
  "vivino_lookup H L N w wine_name =
     (let key = py_strip wine_name
      in case vivino_cache w key of
           Some cached \<Rightarrow> (cached, w)
         | None \<Rightarrow>
             (let q_en = he_to_en_query L wine_name;
                  ps = [(''q'', str ''site:vivino.com '' @ [34] @ q_en @ [34]),
                        (''setlang'', str ''en'')];
                  (html, tr1) = fetch_text N (trace w) BING_SEARCH_URL ps (2 / 5) 1;
                  urls1 = (case html of
                             Some h \<Rightarrow> if h \<noteq> [] then bing_links L h else []
                           | None \<Rightarrow> []);
                  (viv_urls, tr2) =
                    (if urls1 = []
                     then (case fetch_vivino_search_with_backoff N [(''q'', q_en)] tr1 of
                             (Some vhtml, t) \<Rightarrow>
                               (if vhtml \<noteq> [] then fallback_links L vhtml else [], t)
                           | (None, t) \<Rightarrow> ([], t))
                     else (urls1, tr1));
                  (res, tr3) = scan_candidates H N (take 3 viv_urls) tr2
              in (res, w\<lparr>vivino_cache := (vivino_cache w)(key \<mapsto> res), trace := tr3\<rparr>)))"

section \<open>Vocabulary of the properties\<close>

text \<open>
  The matcher after it has read the text \<open>ws\<close>: the character before the position and
  the captured text.
\<close>

definition step_prev :: "nat option \<Rightarrow> ustring \<Rightarrow> nat option" where
  "step_prev prev ws = (if ws = [] then prev else Some (last ws))"

definition step_cap :: "bool \<Rightarrow> ustring \<Rightarrow> ustring \<Rightarrow> ustring" where
  "step_cap ing cap ws = (if ing then cap @ ws else cap)"

text \<open>
  A volume-unit token: a text that one of the unit tokens of \<open>ML_RE\<close> matches without
  regard to case.
\<close>

definition unit_like :: "ustring \<Rightarrow> bool" where
  "unit_like u = (\<exists>t \<in> set unit_tokens. list_all2 lit_i t u)"

text \<open>
  \<open>s\<close> starts with the number \<open>g\<close> of two to five digits, followed by optional
  whitespace, a unit token, and a word boundary.
\<close>

definition volume_at :: "host \<Rightarrow> ustring \<Rightarrow> ustring \<Rightarrow> bool" where
  "volume_at H g s =
     (\<exists>ws u rest. s = g @ ws @ u @ rest \<and> 2 \<le> length g \<and> length g \<le> 5 \<and>
        list_all (is_digit H) g \<and> list_all isspace ws \<and> unit_like u \<and>
        (rest = [] \<or> \<not> is_word H (hd rest)))"

text \<open>\<open>s\<close> starts with two to five digits \<open>g\<close>.\<close>

definition number_at :: "host \<Rightarrow> ustring \<Rightarrow> ustring \<Rightarrow> bool" where
  "number_at H g s =
     (\<exists>rest. s = g @ rest \<and> 2 \<le> length g \<and> length g \<le> 5 \<and> list_all (is_digit H) g)"

text \<open>What \<open>ML_RE\<close> has left to match after the digits of its group.\<close>

definition unit_tail :: "item list" where
  "unit_tail = [GrpEnd, Rx (seq_rx [Star isspace, alts_rx (map (word_rx lit_i) unit_tokens), WordB])]"

text \<open>
  \<open>s\<close> starts with the digits \<open>g\<close> that a greedy \<open>\d{2,5}\<close> takes there: five, or
  all there are.
\<close>

definition bare_number_at :: "host \<Rightarrow> ustring \<Rightarrow> ustring \<Rightarrow> bool" where
  "bare_number_at H g s =
     (\<exists>rest. s = g @ rest \<and> 2 \<le> length g \<and> length g \<le> 5 \<and> list_all (is_digit H) g \<and>
        (length g = 5 \<or> rest = [] \<or> \<not> is_digit H (hd rest)))"

text \<open>No position inside \<open>pre\<close> starts a text with the property \<open>P\<close>.\<close>

definition none_before :: "(ustring \<Rightarrow> bool) \<Rightarrow> ustring \<Rightarrow> ustring \<Rightarrow> bool" where
  "none_before P pre s = (\<forall>p1 p2. pre = p1 @ p2 \<longrightarrow> p2 \<noteq> [] \<longrightarrow> \<not> P (p2 @ s))"

text \<open>Somewhere in \<open>c\<close> a number is followed by a unit token.\<close>

definition has_volume :: "host \<Rightarrow> ustring \<Rightarrow> bool" where
  "has_volume H c = (\<exists>pre g s. c = pre @ s \<and> volume_at H g s)"

text \<open>
  A text as \<open>re.sub(r"\s+", " ", s)\<close> leaves it: a whitespace character is a space and
  is followed by none.
\<close>

fun ws_normal :: "ustring \<Rightarrow> bool" where
  "ws_normal [] = True"
| "ws_normal [c] = (isspace c \<longrightarrow> c = 32)"
| "ws_normal (c # d # s) = ((isspace c \<longrightarrow> c = 32 \<and> \<not> isspace d) \<and> ws_normal (d # s))"

text \<open>
  The merge as the specification words it: for each field, the value of the first
  strategy, in priority order, that has a non-empty one.
\<close>

fun first_set :: "(chunk \<Rightarrow> bool) \<Rightarrow> (chunk \<Rightarrow> 'a option) \<Rightarrow> chunk list \<Rightarrow> 'a option" where
  "first_set has field [] = None"
| "first_set has field (c # cs) = (if has c then field c else first_set has field cs)"

definition merged :: "chunk list \<Rightarrow> chunk" where
  "merged cs =
     \<lparr>name = first_set has_name name cs,
      price_value = first_set has_price price_value cs,
      bottle_size_ml = first_set has_ml bottle_size_ml cs\<rparr>"

text \<open>What every strategy keeps: a price is not negative and a name is normalized.\<close>

definition good_chunk :: "host \<Rightarrow> chunk \<Rightarrow> bool" where
  "good_chunk H c =
     ((case price_value c of Some p \<Rightarrow> float_ge p 0 | None \<Rightarrow> True)
      \<and> (case name c of Some n \<Rightarrow> n \<in> range (normalize_name H) | None \<Rightarrow> True))"

text \<open>
  The page declares no product-type marker: it has no Open-Graph type annotation whose
  content contains \<open>product\<close>, in any case of the letters.
\<close>

definition no_product_marker :: "host \<Rightarrow> soup \<Rightarrow> bool" where
  "no_product_marker H sp =
     (case find_meta sp ''property'' ''og:type'' of
        Some ogtype \<Rightarrow> \<not> sublist (str ''product'') (py_lower H (attr ogtype ''content''))
      | None \<Rightarrow> True)"

text \<open>
  Example pages: one with structured product data and a different Open-Graph title; one
  with an Open-Graph type \<open>Product.Group\<close>, a title and a price meta tag and no
  structured data; one with a heading and a price element only; one with a marker and a
  title but no price.
\<close>

definition page_ld :: soup where
  "page_ld =
     \<lparr>ld_json_scripts =
        [Some (JObj [(str ''@type'', JStr (str ''Product'')),
                     (str ''name'', JStr (str ''Red'')),
                     (str ''offers'', JObj [(str ''price'', JStr (str ''120.00''))]),
                     (str ''description'', JStr (str ''750 ml''))])],
      find_meta = (\<lambda>a v. if a = ''property'' \<and> v = ''og:title''
                           then Some [(''content'', str ''White'')] else None),
      select_one = (\<lambda>sel. None),
      find_h1 = None,
      find_span_price = None,
      select_tables = []\<rparr>"

definition page_og :: soup where
  "page_og =
     \<lparr>ld_json_scripts = [],
      find_meta = (\<lambda>a v.
         if a = ''property'' \<and> v = ''og:type'' then Some [(''content'', str ''Product.Group'')]
         else if a = ''property'' \<and> v = ''og:title''
         then Some [(''content'', str ''Cabernet Sauvignon 2019'')]
         else if a = ''property'' \<and> v = ''product:price:amount''
         then Some [(''content'', str ''89,90'')]
         else None),
      select_one = (\<lambda>sel. None),
      find_h1 = None,
      find_span_price = None,
      select_tables = []\<rparr>"

definition page_plain :: soup where
  "page_plain =
     \<lparr>ld_json_scripts = [],
      find_meta = (\<lambda>a v. None),
      select_one = (\<lambda>sel. None),
      find_h1 = Some \<lparr>attrs = [], get_text = str ''Merlot''\<rparr>,
      find_span_price = Some \<lparr>attrs = [(''class'', str ''price'')], get_text = str ''89''\<rparr>,
      select_tables = []\<rparr>"

definition page_title_only :: soup where
  "page_title_only =
     \<lparr>ld_json_scripts = [],
      find_meta = (\<lambda>a v.
         if a = ''property'' \<and> v = ''og:type'' then Some [(''content'', str ''product'')]
         else if a = ''property'' \<and> v = ''og:title'' then Some [(''content'', str ''White'')]
         else None),
      select_one = (\<lambda>sel. None),
      find_h1 = None,
      find_span_price = None,
      select_tables = []\<rparr>"

text \<open>
  A number that binary64 holds exactly, up to the overflow bound: a significand below
  \<open>2^53\<close> times a power of two not under the least one.
\<close>

definition representable :: "rat \<Rightarrow> bool" where
  "representable y = (\<exists>m e. y = of_nat m * pow2 e \<and> m < 2 ^ 53 \<and> - 1074 \<le> e)"

text \<open>
  The next delay of the backoff loop against the current one: the factor of the
  program lies between 1.7 and 2.0, and the sum and the two products that compute the
  next delay are rounded, so the bounds are 1.69 and 2.01.
\<close>

definition grows :: "rat \<Rightarrow> rat \<Rightarrow> bool" where
  "grows a b = (169 / 100 * a \<le> b \<and> b \<le> 201 / 100 * a)"

text \<open>
  The requests of a trace, counted.
\<close>

fun is_request :: "event \<Rightarrow> bool" where
  "is_request (Request url ps) = True"
| "is_request e = False"

definition requests :: "event list \<Rightarrow> nat" where
  "requests tr = length (filter is_request tr)"

text \<open>
  Every request to the fallback search is answered with status 429, whatever happened
  before it and whatever its parameters are.
\<close>

definition rate_limited :: "network \<Rightarrow> bool" where
  "rate_limited N =
     (\<forall>t ps. \<exists>b. respond N (t @ [Request VIVINO_FALLBACK_SEARCH ps]) = Reply 429 b)"

text \<open>
  A pattern without a capturing group, and a stack item of such a pattern.
\<close>

fun grp_free :: "rx \<Rightarrow> bool" where
  "grp_free (Grp r) = False"
| "grp_free (Cat a b) = (grp_free a \<and> grp_free b)"
| "grp_free (Alt a b) = (grp_free a \<and> grp_free b)"
| "grp_free r = True"

fun grp_free_item :: "item \<Rightarrow> bool" where
  "grp_free_item (Rx r) = grp_free r"
| "grp_free_item GrpEnd = True"

text \<open>
  Lookups one after the other, each in the world the one before left.
\<close>

fun lookup_all :: "host \<Rightarrow> link_reader \<Rightarrow> network \<Rightarrow> world \<Rightarrow> ustring list \<Rightarrow> world" where
  "lookup_all H L N w [] = w"
| "lookup_all H L N w (n # ns) = lookup_all H L N (snd (vivino_lookup H L N w n)) ns"


text \<open>
  Example pages with no marker, a heading and a price element, whose structured data
  are \<open>{"@type": "Product", "name": 5}\<close> and
  \<open>{"@type": "Product", "offers": {"priceSpecification": []}}\<close>.
\<close>

definition page_untyped_name :: soup where
  "page_untyped_name =
     \<lparr>ld_json_scripts =
        [Some (JObj [(str ''@type'', JStr (str ''Product'')), (str ''name'', JInt 5)])],
      find_meta = (\<lambda>a v. None),
      select_one = (\<lambda>sel. None),
      find_h1 = Some \<lparr>attrs = [], get_text = str ''Merlot''\<rparr>,
      find_span_price = Some \<lparr>attrs = [(''class'', str ''price'')], get_text = str ''89''\<rparr>,
      select_tables = []\<rparr>"

definition page_untyped_offer :: soup where
  "page_untyped_offer =
     \<lparr>ld_json_scripts =
        [Some (JObj [(str ''@type'', JStr (str ''Product'')),
                     (str ''offers'', JObj [(str ''priceSpecification'', JArr [])])])],
      find_meta = (\<lambda>a v. None),
      select_one = (\<lambda>sel. None),
      find_h1 = Some \<lparr>attrs = [], get_text = str ''Merlot''\<rparr>,
      find_span_price = Some \<lparr>attrs = [(''class'', str ''price'')], get_text = str ''89''\<rparr>,
      select_tables = []\<rparr>"

text \<open>
  Example rating pages: structured data \<open>"rating":{"count":9,"average": 1.2}\<close>,
  structured data \<open>"rating":{"average":4.3}\<close>, and free text.
\<close>

definition page_12 :: ustring where
  "page_12 = [34] @ str ''rating'' @ [34] @ str '':{'' @ [34] @ str ''count'' @ [34] @ str '':9,''
     @ [34] @ str ''average'' @ [34] @ str '': 1.2}''"

definition page_43 :: ustring where
  "page_43 = [34] @ str ''rating'' @ [34] @ str '':{'' @ [34] @ str ''average'' @ [34] @ str '':4.3}''"

definition page_45 :: ustring where
  "page_45 = str ''Rated 4.5 out of 5''"

text \<open>
  An example cache with a match and a negative marker; a network that answers every
  request with status 429 and one that serves a given page; a reader that finds no link
  and one that finds one link; a world with an empty cache.
\<close>

definition cached_world :: world where
  "cached_world =
     \<lparr>vivino_cache =
        [str ''Yarden'' \<mapsto> Some \<lparr>vivino_url = str ''https://www.vivino.com/wines/1'',
                                   vivino_rating = Finite (4841369599423283 / 2 ^ 50)\<rparr>,
         str ''Nope'' \<mapsto> None],
      trace = []\<rparr>"

definition always_429 :: network where
  "always_429 = \<lparr>respond = (\<lambda>t. Reply 429 None), random_bits = (\<lambda>t. 0)\<rparr>"

definition serves :: "ustring \<Rightarrow> network" where
  "serves page = \<lparr>respond = (\<lambda>t. Reply 200 (Some page)), random_bits = (\<lambda>t. 0)\<rparr>"

definition no_links :: link_reader where
  "no_links = \<lparr>he_to_en_query = (\<lambda>s. s), bing_links = (\<lambda>h. []), fallback_links = (\<lambda>h. [])\<rparr>"

definition one_link :: link_reader where
  "one_link = \<lparr>he_to_en_query = (\<lambda>s. s),
     bing_links = (\<lambda>h. [str ''https://www.vivino.com/wines/1'']), fallback_links = (\<lambda>h. [])\<rparr>"

definition empty_world :: world where
  "empty_world = \<lparr>vivino_cache = Map.empty, trace = []\<rparr>"

section \<open>Properties\<close>

subsection \<open>The matcher\<close>

lemma step_nil [simp]: "step_prev prev [] = prev" "step_cap ing cap [] = cap"
  by (simp_all add: step_prev_def step_cap_def)

lemma step_cons:
  "step_prev prev (c # ws) = step_prev (Some c) ws"
  "step_cap ing cap (c # ws) = step_cap ing (if ing then cap @ [c] else cap) ws"
  by (simp_all add: step_prev_def step_cap_def)

lemma step_append:
  "step_prev (step_prev prev xs) ys = step_prev prev (xs @ ys)"
  "step_cap ing (step_cap ing cap xs) ys = step_cap ing cap (xs @ ys)"
  by (simp_all add: step_prev_def step_cap_def)

lemma bt_cls:
  "bt w (Rx (Cls p) # k) prev s ing cap =
     (case s of [] \<Rightarrow> None
      | c # s' \<Rightarrow> if p c then bt w k (Some c) s' ing (if ing then cap @ [c] else cap) else None)"
  by (cases s) simp_all

lemma bt_star_greedy:
  "list_all p ws \<Longrightarrow> rest = [] \<or> \<not> p (hd rest) \<Longrightarrow>
   bt w k (step_prev prev ws) rest ing (step_cap ing cap ws) = Some r \<Longrightarrow>
   bt w (Rx (Star p) # k) prev (ws @ rest) ing cap = Some r"
proof (induction ws arbitrary: prev cap)
  case Nil
  then show ?case by (cases rest) auto
next
  case (Cons c ws)
  have "bt w (Rx (Star p) # k) (Some c) (ws @ rest) ing (if ing then cap @ [c] else cap) = Some r"
    using Cons.prems by (intro Cons.IH) (auto simp: step_cons)
  then show ?case using Cons.prems by simp
qed

lemma bt_star_succeeds:
  "list_all p ws \<Longrightarrow>
   bt w k (step_prev prev ws) rest ing (step_cap ing cap ws) \<noteq> None \<Longrightarrow>
   bt w (Rx (Star p) # k) prev (ws @ rest) ing cap \<noteq> None"
proof (induction ws arbitrary: prev cap)
  case Nil
  then show ?case by (cases rest) (auto split: option.splits)
next
  case (Cons c ws)
  have "bt w (Rx (Star p) # k) (Some c) (ws @ rest) ing (if ing then cap @ [c] else cap) \<noteq> None"
    using Cons.prems by (intro Cons.IH) (auto simp: step_cons)
  then show ?case using Cons.prems by (auto split: option.splits)
qed

lemma bt_star_sound:
  "bt w (Rx (Star p) # k) prev s ing cap = Some r \<Longrightarrow>
   \<exists>ws s'. s = ws @ s' \<and> list_all p ws \<and>
     bt w k (step_prev prev ws) s' ing (step_cap ing cap ws) = Some r"
proof (induction s arbitrary: prev cap)
  case Nil
  then show ?case by (rule_tac x = "[]" in exI) simp
next
  case (Cons c s)
  show ?case
  proof (cases "p c \<and> bt w (Rx (Star p) # k) (Some c) s ing (if ing then cap @ [c] else cap) = Some r")
    case True
    then obtain ws s' where "s = ws @ s'" "list_all p ws"
      "bt w k (step_prev (Some c) ws) s' ing (step_cap ing (if ing then cap @ [c] else cap) ws) = Some r"
      using Cons.IH by blast
    then show ?thesis using True
      by (rule_tac x = "c # ws" in exI, rule_tac x = "s'" in exI) (simp add: step_cons)
  next
    case False
    then have "bt w k prev (c # s) ing cap = Some r"
      using Cons.prems by (auto split: if_splits option.splits)
    then show ?thesis by (rule_tac x = "[]" in exI) simp
  qed
qed

lemma bt_upto_greedy:
  "list_all p ds \<Longrightarrow> length ds \<le> n \<Longrightarrow> length ds = n \<or> rest = [] \<or> \<not> p (hd rest) \<Longrightarrow>
   bt w k (step_prev prev ds) rest ing (step_cap ing cap ds) = Some r \<Longrightarrow>
   bt w (Rx (upto_rx n p) # k) prev (ds @ rest) ing cap = Some r"
proof (induction n arbitrary: ds prev cap)
  case 0
  then show ?case by simp
next
  case (Suc n)
  show ?case
  proof (cases ds)
    case Nil
    then show ?thesis using Suc.prems by (cases rest) (auto simp: opt_rx_def)
  next
    case (Cons c ds')
    have "bt w (Rx (upto_rx n p) # k) (Some c) (ds' @ rest) ing (if ing then cap @ [c] else cap) = Some r"
      using Suc.prems Cons by (intro Suc.IH) (auto simp: step_cons)
    then show ?thesis using Suc.prems Cons by (simp add: opt_rx_def)
  qed
qed

lemma bt_upto_succeeds:
  "list_all p ds \<Longrightarrow> length ds \<le> n \<Longrightarrow>
   bt w k (step_prev prev ds) rest ing (step_cap ing cap ds) \<noteq> None \<Longrightarrow>
   bt w (Rx (upto_rx n p) # k) prev (ds @ rest) ing cap \<noteq> None"
proof (induction n arbitrary: ds prev cap)
  case 0
  then show ?case by simp
next
  case (Suc n)
  show ?case
  proof (cases ds)
    case Nil
    then show ?thesis using Suc.prems by (auto simp: opt_rx_def split: option.splits)
  next
    case (Cons c ds')
    have "bt w (Rx (upto_rx n p) # k) (Some c) (ds' @ rest) ing (if ing then cap @ [c] else cap) \<noteq> None"
      using Suc.prems Cons by (intro Suc.IH) (auto simp: step_cons)
    then show ?thesis using Suc.prems Cons by (auto simp: opt_rx_def split: option.splits)
  qed
qed

lemma bt_upto_sound:
  "bt w (Rx (upto_rx n p) # k) prev s ing cap = Some r \<Longrightarrow>
   \<exists>ds s'. s = ds @ s' \<and> length ds \<le> n \<and> list_all p ds \<and>
     bt w k (step_prev prev ds) s' ing (step_cap ing cap ds) = Some r"
proof (induction n arbitrary: s prev cap)
  case 0
  then show ?case by (rule_tac x = "[]" in exI) simp
next
  case (Suc n)
  show ?case
  proof (cases "bt w (Rx (Cls p) # Rx (upto_rx n p) # k) prev s ing cap = Some r")
    case True
    then obtain c s1 where s: "s = c # s1" "p c"
      and "bt w (Rx (upto_rx n p) # k) (Some c) s1 ing (if ing then cap @ [c] else cap) = Some r"
      by (cases s) (auto split: if_splits)
    then obtain ds s' where "s1 = ds @ s'" "length ds \<le> n" "list_all p ds"
      "bt w k (step_prev (Some c) ds) s' ing (step_cap ing (if ing then cap @ [c] else cap) ds) = Some r"
      using Suc.IH by blast
    then show ?thesis using s
      by (rule_tac x = "c # ds" in exI, rule_tac x = "s'" in exI) (simp add: step_cons)
  next
    case False
    then have "bt w k prev s ing cap = Some r"
      using Suc.prems by (auto simp: opt_rx_def split: option.splits)
    then show ?thesis by (rule_tac x = "[]" in exI) simp
  qed
qed

lemma bt_rep_greedy:
  "list_all p ds \<Longrightarrow> m \<le> length ds \<Longrightarrow> length ds \<le> n \<Longrightarrow>
   length ds = n \<or> rest = [] \<or> \<not> p (hd rest) \<Longrightarrow>
   bt w k (step_prev prev ds) rest ing (step_cap ing cap ds) = Some r \<Longrightarrow>
   bt w (Rx (rep_range m n p) # k) prev (ds @ rest) ing cap = Some r"
proof (induction m arbitrary: n ds prev cap)
  case 0
  then show ?case by (simp add: bt_upto_greedy)
next
  case (Suc m)
  then obtain c ds' where ds: "ds = c # ds'" by (cases ds) auto
  have "bt w (Rx (rep_range m (n - 1) p) # k) (Some c) (ds' @ rest) ing (if ing then cap @ [c] else cap) = Some r"
    using Suc.prems ds by (intro Suc.IH) (auto simp: step_cons)
  then show ?case using Suc.prems ds by simp
qed

lemma bt_rep_succeeds:
  "list_all p ds \<Longrightarrow> m \<le> length ds \<Longrightarrow> length ds \<le> n \<Longrightarrow>
   bt w k (step_prev prev ds) rest ing (step_cap ing cap ds) \<noteq> None \<Longrightarrow>
   bt w (Rx (rep_range m n p) # k) prev (ds @ rest) ing cap \<noteq> None"
proof (induction m arbitrary: n ds prev cap)
  case 0
  then show ?case by (simp add: bt_upto_succeeds)
next
  case (Suc m)
  then obtain c ds' where ds: "ds = c # ds'" by (cases ds) auto
  have "bt w (Rx (rep_range m (n - 1) p) # k) (Some c) (ds' @ rest) ing (if ing then cap @ [c] else cap) \<noteq> None"
    using Suc.prems ds by (intro Suc.IH) (auto simp: step_cons)
  then show ?case using Suc.prems ds by simp
qed

lemma bt_rep_sound:
  "bt w (Rx (rep_range m n p) # k) prev s ing cap = Some r \<Longrightarrow> m \<le> n \<Longrightarrow>
   \<exists>ds s'. s = ds @ s' \<and> m \<le> length ds \<and> length ds \<le> n \<and> list_all p ds \<and>
     bt w k (step_prev prev ds) s' ing (step_cap ing cap ds) = Some r"
proof (induction m arbitrary: n s prev cap)
  case 0
  then show ?case using bt_upto_sound [of w n p k prev s ing cap r] by auto
next
  case (Suc m)
  then obtain c s1 where s: "s = c # s1" "p c"
    and "bt w (Rx (rep_range m (n - 1) p) # k) (Some c) s1 ing (if ing then cap @ [c] else cap) = Some r"
    by (cases s) (auto split: if_splits)
  moreover have "m \<le> n - 1" using Suc.prems by simp
  ultimately obtain ds s' where "s1 = ds @ s'" "m \<le> length ds" "length ds \<le> n - 1" "list_all p ds"
    "bt w k (step_prev (Some c) ds) s' ing (step_cap ing (if ing then cap @ [c] else cap) ds) = Some r"
    using Suc.IH by blast
  then show ?case using s Suc.prems
    by (rule_tac x = "c # ds" in exI, rule_tac x = "s'" in exI) (auto simp: step_cons)
qed

lemma bt_word:
  "list_all2 l t u \<Longrightarrow>
   bt w (Rx (word_rx l t) # k) prev (u @ s) ing cap = bt w k (step_prev prev u) s ing (step_cap ing cap u)"
proof (induction t u arbitrary: prev cap rule: list_all2_induct)
  case Nil
  then show ?case by simp
next
  case (Cons c t x u)
  then show ?case by (simp add: step_cons)
qed

lemma bt_word_sound:
  "bt w (Rx (word_rx l t) # k) prev s ing cap = Some r \<Longrightarrow>
   \<exists>u s'. s = u @ s' \<and> list_all2 l t u \<and>
     bt w k (step_prev prev u) s' ing (step_cap ing cap u) = Some r"
proof (induction t arbitrary: s prev cap)
  case Nil
  then show ?case by (rule_tac x = "[]" in exI) simp
next
  case (Cons c t)
  then obtain x s1 where s: "s = x # s1" "l c x"
    and "bt w (Rx (word_rx l t) # k) (Some x) s1 ing (if ing then cap @ [x] else cap) = Some r"
    by (cases s) (auto split: if_splits)
  then obtain u s' where "s1 = u @ s'" "list_all2 l t u"
    "bt w k (step_prev (Some x) u) s' ing (step_cap ing (if ing then cap @ [x] else cap) u) = Some r"
    using Cons.IH by blast
  then show ?case using s
    by (rule_tac x = "x # u" in exI, rule_tac x = "s'" in exI) (simp add: step_cons)
qed

lemma bt_alts_succeeds:
  "t \<in> set ts \<Longrightarrow> list_all2 l t u \<Longrightarrow>
   bt w k (step_prev prev u) s ing (step_cap ing cap u) \<noteq> None \<Longrightarrow>
   bt w (Rx (alts_rx (map (word_rx l) ts)) # k) prev (u @ s) ing cap \<noteq> None"
proof (induction ts)
  case Nil
  then show ?case by simp
next
  case (Cons a ts)
  show ?case
  proof (cases ts)
    case Nil
    then show ?thesis using Cons.prems by (simp add: bt_word)
  next
    case (Cons b ts')
    show ?thesis
    proof (cases "t = a")
      case True
      then show ?thesis using Cons.prems Cons by (auto simp: bt_word split: option.splits)
    next
      case False
      then have "bt w (Rx (alts_rx (map (word_rx l) ts)) # k) prev (u @ s) ing cap \<noteq> None"
        using Cons.prems Cons.IH by simp
      then show ?thesis using Cons by (auto split: option.splits)
    qed
  qed
qed

lemma bt_alts_sound:
  "bt w (Rx (alts_rx (map (word_rx l) ts)) # k) prev s ing cap = Some r \<Longrightarrow>
   \<exists>t u s'. t \<in> set ts \<and> s = u @ s' \<and> list_all2 l t u \<and>
     bt w k (step_prev prev u) s' ing (step_cap ing cap u) = Some r"
proof (induction ts)
  case Nil
  then show ?case by (simp add: bt_cls split: list.splits)
next
  case (Cons a ts)
  show ?case
  proof (cases "bt w (Rx (word_rx l a) # k) prev s ing cap = Some r")
    case True
    then show ?thesis using bt_word_sound [of w l a k prev s ing cap r] by auto
  next
    case False
    then obtain b ts' where ts: "ts = b # ts'" using Cons.prems by (cases ts) auto
    then have "bt w (Rx (alts_rx (map (word_rx l) ts)) # k) prev s ing cap = Some r"
      using Cons.prems False by (auto split: option.splits)
    then show ?thesis using Cons.IH by auto
  qed
qed

lemma lit_i_cases:
  "lit_i 109 x \<longleftrightarrow> x = 109 \<or> x = 77"
  "lit_i 108 x \<longleftrightarrow> x = 108 \<or> x = 76"
  "lit_i 77 x \<longleftrightarrow> x = 109 \<or> x = 77"
  "lit_i 76 x \<longleftrightarrow> x = 108 \<or> x = 76"
  "lit_i 1502 x \<longleftrightarrow> x = 1502"
  "lit_i 1524 x \<longleftrightarrow> x = 1524"
  "lit_i 1500 x \<longleftrightarrow> x = 1500"
  by (auto simp: lit_i_def ascii_lower_def)

lemma unit_like_cases:
  "unit_like u \<longleftrightarrow>
     (\<exists>x y. u = [x, y] \<and> (x = 109 \<or> x = 77) \<and> (y = 108 \<or> y = 76))
     \<or> u = [1502, 1524, 1500] \<or> u = [1502, 1500]"
  by (auto simp: unit_like_def unit_tokens_def str_def list_all2_Cons1 lit_i_cases)

lemma unit_like_last_word: "unit_like u \<Longrightarrow> is_word H (last u)"
  by (auto simp: unit_like_cases is_word_def hebrew_letter_def)

lemma unit_like_hd: "unit_like u \<Longrightarrow> \<not> is_digit H (hd u) \<and> \<not> isspace (hd u) \<and> u \<noteq> []"
  by (auto simp: unit_like_cases is_digit_def isspace_def ascii_digit_def hebrew_letter_def)


lemma space_not_digit: "isspace c \<Longrightarrow> \<not> is_digit H c"
  by (auto simp: is_digit_def isspace_def ascii_digit_def)

lemma unit_tail_sound:
  assumes "bt w unit_tail prev s ing cap = Some r"
  shows "\<exists>ws u rest. s = ws @ u @ rest \<and> r = (cap, rest) \<and> list_all isspace ws \<and>
           unit_like u \<and> at_boundary w (Some (last u)) rest"
proof -
  have "bt w [Rx (Star isspace), Rx (Cat (alts_rx (map (word_rx lit_i) unit_tokens)) (Cat WordB Eps))]
          prev s False cap = Some r"
    using assms by (simp add: unit_tail_def)
  from bt_star_sound [OF this] obtain ws s1 where 1: "s = ws @ s1" "list_all isspace ws"
    and "bt w [Rx (Cat (alts_rx (map (word_rx lit_i) unit_tokens)) (Cat WordB Eps))]
           (step_prev prev ws) s1 False (step_cap False cap ws) = Some r"
    by blast
  then have "bt w [Rx (alts_rx (map (word_rx lit_i) unit_tokens)), Rx (Cat WordB Eps)]
           (step_prev prev ws) s1 False cap = Some r"
    by (simp add: step_cap_def)
  from bt_alts_sound [OF this] obtain t u rest where 2: "t \<in> set unit_tokens" "s1 = u @ rest"
      "list_all2 lit_i t u"
    and 3: "bt w [Rx (Cat WordB Eps)] (step_prev (step_prev prev ws) u) rest False
              (step_cap False cap u) = Some r"
    by blast
  have u: "unit_like u" using 2 by (auto simp: unit_like_def)
  then have "u \<noteq> []" by (auto simp: unit_like_cases)
  then have "step_prev (step_prev prev ws) u = Some (last u)" by (simp add: step_prev_def)
  then have "at_boundary w (Some (last u)) rest \<and> r = (cap, rest)"
    using 3 by (auto simp: step_cap_def split: if_splits)
  then show ?thesis using 1 2 u by blast
qed

lemma unit_tail_succeeds:
  assumes "list_all isspace ws" "unit_like u" "at_boundary w (Some (last u)) rest"
  shows "bt w unit_tail prev (ws @ u @ rest) ing cap \<noteq> None"
proof -
  obtain t where t: "t \<in> set unit_tokens" "list_all2 lit_i t u"
    using assms(2) by (auto simp: unit_like_def)
  have "u \<noteq> []" using assms(2) by (auto simp: unit_like_cases)
  then have p: "step_prev (step_prev prev ws) u = Some (last u)" by (simp add: step_prev_def)
  have "bt w [Rx (Cat WordB Eps)] (step_prev (step_prev prev ws) u) rest False
          (step_cap False (step_cap False cap ws) u) \<noteq> None"
    using assms(3) by (simp add: p)
  then have "bt w [Rx (alts_rx (map (word_rx lit_i) unit_tokens)), Rx (Cat WordB Eps)]
          (step_prev prev ws) (u @ rest) False (step_cap False cap ws) \<noteq> None"
    using t by (intro bt_alts_succeeds)
  then have "bt w [Rx (Cat (alts_rx (map (word_rx lit_i) unit_tokens)) (Cat WordB Eps))]
          (step_prev prev ws) (u @ rest) False (step_cap False cap ws) \<noteq> None"
    by simp
  then have "bt w [Rx (Star isspace), Rx (Cat (alts_rx (map (word_rx lit_i) unit_tokens)) (Cat WordB Eps))]
          prev (ws @ u @ rest) False cap \<noteq> None"
    using assms(1) by (intro bt_star_succeeds)
  then show ?thesis by (simp add: unit_tail_def)
qed

lemma bt_ML_RE:
  "bt w [Rx (ML_RE H)] prev s False [] =
   bt w (Rx (rep_range 2 5 (is_digit H)) # unit_tail) prev s True []"
  by (simp add: ML_RE_def unit_tail_def)

lemma boundary_word:
  "is_word H c \<Longrightarrow> at_boundary (is_word H) (Some c) rest \<longleftrightarrow> (rest = [] \<or> \<not> is_word H (hd rest))"
  by (cases rest) (auto simp: at_boundary_def)

lemma ML_RE_sound:
  assumes "bt (is_word H) [Rx (ML_RE H)] prev s False [] = Some r"
  shows "volume_at H (fst r) s"
proof -
  have "bt (is_word H) (Rx (rep_range 2 5 (is_digit H)) # unit_tail) prev s True [] = Some r"
    using assms by (simp add: bt_ML_RE)
  from bt_rep_sound [OF this] obtain g s1 where 1: "s = g @ s1" "2 \<le> length g" "length g \<le> 5"
      "list_all (is_digit H) g"
    and "bt (is_word H) unit_tail (step_prev prev g) s1 True (step_cap True [] g) = Some r"
    by auto
  from unit_tail_sound [OF this(5)] obtain ws u rest where 2: "s1 = ws @ u @ rest"
      "r = (g, rest)" "list_all isspace ws"
      "unit_like u" "at_boundary (is_word H) (Some (last u)) rest"
    by (auto simp: step_cap_def)
  then have "rest = [] \<or> \<not> is_word H (hd rest)"
    using boundary_word [of H "last u" rest] unit_like_last_word [of u H] by simp
  then show ?thesis using 1 2 unfolding volume_at_def by auto
qed

lemma ML_RE_succeeds:
  assumes "volume_at H g s"
  shows "bt (is_word H) [Rx (ML_RE H)] prev s False [] \<noteq> None"
proof -
  obtain ws u rest where 1: "s = g @ ws @ u @ rest" "2 \<le> length g" "length g \<le> 5"
      "list_all (is_digit H) g" "list_all isspace ws" "unit_like u"
      "rest = [] \<or> \<not> is_word H (hd rest)"
    using assms unfolding volume_at_def by blast
  then have "at_boundary (is_word H) (Some (last u)) rest"
    using boundary_word [of H "last u" rest] unit_like_last_word [of u H] by simp
  then have "bt (is_word H) unit_tail (step_prev prev g) (ws @ u @ rest) True (step_cap True [] g) \<noteq> None"
    using 1 by (intro unit_tail_succeeds)
  then have "bt (is_word H) (Rx (rep_range 2 5 (is_digit H)) # unit_tail) prev (g @ ws @ u @ rest) True [] \<noteq> None"
    using 1 by (intro bt_rep_succeeds) auto
  then show ?thesis using 1 by (simp add: bt_ML_RE)
qed

lemma ML_RE_exact:
  assumes "list_all (is_digit H) g" "2 \<le> length g" "length g \<le> 5" "list_all isspace ws"
    "unit_like u" "rest = [] \<or> \<not> is_word H (hd rest)"
  shows "\<exists>m. bt (is_word H) [Rx (ML_RE H)] prev (g @ ws @ u @ rest) False [] = Some m \<and> fst m = g"
proof -
  have b: "at_boundary (is_word H) (Some (last u)) rest"
    using assms boundary_word [of H "last u" rest] unit_like_last_word [of u H] by simp
  have "bt (is_word H) unit_tail (step_prev prev g) (ws @ u @ rest) True (step_cap True [] g) \<noteq> None"
    using assms b by (intro unit_tail_succeeds)
  then obtain r where r: "bt (is_word H) unit_tail (step_prev prev g) (ws @ u @ rest) True (step_cap True [] g) = Some r"
    by auto
  from unit_tail_sound [OF this] have fst: "fst r = g"
    by (auto simp: step_cap_def)
  have "\<not> is_digit H (hd (ws @ u @ rest))"
    using assms unit_like_hd [of u H] space_not_digit [of "hd ws" H]
    by (cases ws) auto
  then have "bt (is_word H) (Rx (rep_range 2 5 (is_digit H)) # unit_tail) prev (g @ (ws @ u @ rest)) True [] = Some r"
    using assms r by (intro bt_rep_greedy) auto
  then show ?thesis using fst by (simp add: bt_ML_RE)
qed

lemma ML_RE_no_digit:
  "\<not> is_digit H c \<Longrightarrow> bt w [Rx (ML_RE H)] prev (c # s) False [] = None"
  by (simp add: bt_ML_RE numeral_2_eq_2)

lemma ML_NUMBER_RE_sound:
  assumes "bt w [Rx (ML_NUMBER_RE H)] prev s False [] = Some r"
  shows "number_at H (fst r) s"
proof -
  have "bt w [Rx (rep_range 2 5 (is_digit H)), GrpEnd] prev s True [] = Some r"
    using assms by (simp add: ML_NUMBER_RE_def)
  from bt_rep_sound [OF this] obtain g s1 where "s = g @ s1" "2 \<le> length g" "length g \<le> 5"
      "list_all (is_digit H) g"
    and "bt w [GrpEnd] (step_prev prev g) s1 True (step_cap True [] g) = Some r"
    by auto
  then show ?thesis unfolding number_at_def by (auto simp: step_cap_def)
qed

lemma search_skip:
  "(\<And>prev' c s'. c \<in> set pre \<Longrightarrow> bt w [Rx r] prev' (c # s') False [] = None) \<Longrightarrow>
   search_from w r prev (pre @ s) = search_from w r (step_prev prev pre) s"
  by (induction pre arbitrary: prev) (simp_all add: step_cons)

lemma search_hit:
  "bt w [Rx r] prev s False [] = Some m \<Longrightarrow> search_from w r prev s = Some (fst m)"
  by (cases s) simp_all

lemma search_sound:
  "search_from w r prev s = Some g \<Longrightarrow>
   \<exists>pre s' m. s = pre @ s' \<and> bt w [Rx r] (step_prev prev pre) s' False [] = Some m \<and> fst m = g"
proof (induction s arbitrary: prev)
  case Nil
  then show ?case by (rule_tac x = "[]" in exI) (auto simp: map_option_case split: option.splits)
next
  case (Cons c s)
  show ?case
  proof (cases "bt w [Rx r] prev (c # s) False []")
    case None
    then have "search_from w r (Some c) s = Some g" using Cons.prems by simp
    then obtain pre s' m where "s = pre @ s'" "bt w [Rx r] (step_prev (Some c) pre) s' False [] = Some m" "fst m = g"
      using Cons.IH by blast
    then show ?thesis
      by (rule_tac x = "c # pre" in exI, rule_tac x = "s'" in exI, rule_tac x = m in exI)
        (simp add: step_cons)
  next
    case (Some m)
    then show ?thesis using Cons.prems
      by (rule_tac x = "[]" in exI, rule_tac x = "c # s" in exI, rule_tac x = m in exI) auto
  qed
qed

lemma search_complete:
  "bt w [Rx r] (step_prev prev pre) s False [] \<noteq> None \<Longrightarrow> search_from w r prev (pre @ s) \<noteq> None"
proof (induction pre arbitrary: prev)
  case Nil
  then show ?case by (cases s) (auto split: option.splits)
next
  case (Cons c pre)
  then show ?case by (auto simp: step_cons split: option.splits)
qed

lemma none_before_Cons:
  "none_before P (c # pre) s \<longleftrightarrow> \<not> P (c # pre @ s) \<and> none_before P pre s"
  unfolding none_before_def
  by (auto simp: Cons_eq_append_conv) (metis append_Cons append_Nil list.distinct(1))+

lemma search_first:
  "none_before (\<lambda>x. \<exists>prev. bt w [Rx r] prev x False [] \<noteq> None) pre s \<Longrightarrow>
   search_from w r prev (pre @ s) = search_from w r (step_prev prev pre) s"
proof (induction pre arbitrary: prev)
  case Nil
  then show ?case by simp
next
  case (Cons c pre)
  have "\<not> (\<exists>prev. bt w [Rx r] prev (c # pre @ s) False [] \<noteq> None)"
    and nb: "none_before (\<lambda>x. \<exists>prev. bt w [Rx r] prev x False [] \<noteq> None) pre s"
    using Cons.prems unfolding none_before_Cons by blast+
  then have "bt w [Rx r] prev (c # pre @ s) False [] = None" by blast
  then show ?case using Cons.IH [OF nb] by (simp add: step_cons)
qed

lemma none_before_mono:
  "none_before P pre s \<Longrightarrow> (\<And>x. Q x \<Longrightarrow> P x) \<Longrightarrow> none_before Q pre s"
  unfolding none_before_def by blast

lemma search_ML_RE_first:
  assumes "none_before (\<lambda>x. \<exists>g. volume_at H g x) pre s" "volume_at H g s"
  shows "re_search H (ML_RE H) (pre @ s) = Some g"
proof -
  have "none_before (\<lambda>x. \<exists>prev. bt (is_word H) [Rx (ML_RE H)] prev x False [] \<noteq> None) pre s"
    using assms(1) by (rule none_before_mono) (use ML_RE_sound in blast)
  then have 1: "re_search H (ML_RE H) (pre @ s) = search_from (is_word H) (ML_RE H) (step_prev None pre) s"
    unfolding re_search_def by (rule search_first)
  obtain ws u rest where s: "s = g @ ws @ u @ rest" "2 \<le> length g" "length g \<le> 5"
      "list_all (is_digit H) g" "list_all isspace ws" "unit_like u"
      "rest = [] \<or> \<not> is_word H (hd rest)"
    using assms(2) unfolding volume_at_def by blast
  then obtain m where "bt (is_word H) [Rx (ML_RE H)] (step_prev None pre) s False [] = Some m" "fst m = g"
    using ML_RE_exact [of H g ws u rest "step_prev None pre"] by auto
  then show ?thesis using 1 search_hit by fastforce
qed

lemma search_ML_RE_none:
  "\<not> has_volume H c \<longleftrightarrow> re_search H (ML_RE H) c = None"
proof
  assume nv: "\<not> has_volume H c"
  show "re_search H (ML_RE H) c = None"
  proof (rule ccontr)
    assume "re_search H (ML_RE H) c \<noteq> None"
    then obtain g where "search_from (is_word H) (ML_RE H) None c = Some g"
      by (auto simp: re_search_def)
    from search_sound [OF this] obtain pre s' m where "c = pre @ s'"
      "bt (is_word H) [Rx (ML_RE H)] (step_prev None pre) s' False [] = Some m"
      by blast
    then have "has_volume H c" unfolding has_volume_def using ML_RE_sound by blast
    then show False using nv by simp
  qed
next
  assume n: "re_search H (ML_RE H) c = None"
  show "\<not> has_volume H c"
  proof
    assume "has_volume H c"
    then obtain pre g s where "c = pre @ s" "volume_at H g s" unfolding has_volume_def by blast
    then have "search_from (is_word H) (ML_RE H) None (pre @ s) \<noteq> None"
      using ML_RE_succeeds [of H g s "step_prev None pre"] by (intro search_complete) simp
    then show False using n \<open>c = pre @ s\<close> by (simp add: re_search_def)
  qed
qed

lemma ML_NUMBER_RE_exact:
  assumes "bare_number_at H g s"
  shows "bt w [Rx (ML_NUMBER_RE H)] prev s False [] = Some (g, drop (length g) s)"
proof -
  obtain rest where s: "s = g @ rest" "2 \<le> length g" "length g \<le> 5" "list_all (is_digit H) g"
      "length g = 5 \<or> rest = [] \<or> \<not> is_digit H (hd rest)"
    using assms unfolding bare_number_at_def by blast
  have "bt w [Rx (rep_range 2 5 (is_digit H)), GrpEnd] prev (g @ rest) True [] = Some (g, rest)"
    using s by (intro bt_rep_greedy) (auto simp: step_cap_def)
  then show ?thesis using s by (simp add: ML_NUMBER_RE_def)
qed

lemma search_ML_NUMBER_RE_first:
  assumes "none_before (\<lambda>x. \<exists>g. number_at H g x) pre s" "bare_number_at H g s"
  shows "re_search H (ML_NUMBER_RE H) (pre @ s) = Some g"
proof -
  have "none_before (\<lambda>x. \<exists>prev. bt (is_word H) [Rx (ML_NUMBER_RE H)] prev x False [] \<noteq> None) pre s"
    using assms(1) by (rule none_before_mono) (use ML_NUMBER_RE_sound in blast)
  then have "re_search H (ML_NUMBER_RE H) (pre @ s) = search_from (is_word H) (ML_NUMBER_RE H) (step_prev None pre) s"
    unfolding re_search_def by (rule search_first)
  then show ?thesis using ML_NUMBER_RE_exact [OF assms(2)] search_hit by fastforce
qed

lemma search_ML_NUMBER_RE_none:
  assumes "\<not> (\<exists>pre g s. c = pre @ s \<and> number_at H g s)"
  shows "re_search H (ML_NUMBER_RE H) c = None"
proof (rule ccontr)
  assume "re_search H (ML_NUMBER_RE H) c \<noteq> None"
  then obtain g where "search_from (is_word H) (ML_NUMBER_RE H) None c = Some g"
    by (auto simp: re_search_def)
  from search_sound [OF this] obtain pre s' m where "c = pre @ s'"
    "bt (is_word H) [Rx (ML_NUMBER_RE H)] (step_prev None pre) s' False [] = Some m"
    by blast
  then show False using assms ML_NUMBER_RE_sound by blast
qed

lemma remove_commas_idem [simp]: "remove_commas (remove_commas s) = remove_commas s"
  by (simp add: remove_commas_def)

lemma remove_commas_append [simp]: "remove_commas (xs @ ys) = remove_commas xs @ remove_commas ys"
  by (simp add: remove_commas_def)


subsection \<open>Size extraction\<close>

text \<open>
  Claim C8.  With \<open>c\<close> the text without its commas: when \<open>c\<close> has a number of two to
  five digits followed by a unit token, \<open>extract_ml\<close> returns the first such number,
  whatever its value (no range check).  When \<open>c\<close> has none, \<open>extract_ml\<close> looks at the
  first run of two to five digits that \<open>c\<close> has, and returns it exactly when it lies
  between 50 and 3000.  When \<open>c\<close> has neither, it returns nothing.
\<close>

theorem extract_ml_unit_or_range:
  "(\<forall>pre g s. remove_commas text = pre @ s \<and> volume_at H g s
        \<and> none_before (\<lambda>x. \<exists>g. volume_at H g x) pre s
      \<longrightarrow> extract_ml H text = Some (py_int H g))
   \<and> (\<forall>pre g s. \<not> has_volume H (remove_commas text) \<and> remove_commas text = pre @ s
        \<and> bare_number_at H g s \<and> none_before (\<lambda>x. \<exists>g. number_at H g x) pre s
      \<longrightarrow> extract_ml H text
            = (if 50 \<le> py_int H g \<and> py_int H g \<le> 3000 then Some (py_int H g) else None))
   \<and> (\<not> has_volume H (remove_commas text)
        \<and> \<not> (\<exists>pre g s. remove_commas text = pre @ s \<and> number_at H g s)
      \<longrightarrow> extract_ml H text = None)"
proof (intro conjI allI impI)
  fix pre g s
  assume a: "remove_commas text = pre @ s \<and> volume_at H g s
        \<and> none_before (\<lambda>x. \<exists>g. volume_at H g x) pre s"
  then have "re_search H (ML_RE H) (remove_commas text) = Some g"
    using search_ML_RE_first [of H pre s g] by simp
  moreover have "text \<noteq> []" using a by (auto simp: volume_at_def remove_commas_def)
  ultimately show "extract_ml H text = Some (py_int H g)" by (simp add: extract_ml_def)
next
  fix pre g s
  assume a: "\<not> has_volume H (remove_commas text) \<and> remove_commas text = pre @ s
        \<and> bare_number_at H g s \<and> none_before (\<lambda>x. \<exists>g. number_at H g x) pre s"
  then have "re_search H (ML_RE H) (remove_commas text) = None"
    using search_ML_RE_none by blast
  moreover have "re_search H (ML_NUMBER_RE H) (remove_commas text) = Some g"
    using a search_ML_NUMBER_RE_first [of H pre s g] by simp
  moreover have "text \<noteq> []" using a by (auto simp: bare_number_at_def remove_commas_def)
  ultimately show "extract_ml H text
            = (if 50 \<le> py_int H g \<and> py_int H g \<le> 3000 then Some (py_int H g) else None)"
    by (simp add: extract_ml_def Let_def)
next
  assume a: "\<not> has_volume H (remove_commas text)
        \<and> \<not> (\<exists>pre g s. remove_commas text = pre @ s \<and> number_at H g s)"
  then have "re_search H (ML_RE H) (remove_commas text) = None"
    using search_ML_RE_none by blast
  moreover have "re_search H (ML_NUMBER_RE H) (remove_commas text) = None"
    using a search_ML_NUMBER_RE_none by blast
  ultimately show "extract_ml H text = None" by (simp add: extract_ml_def)
qed





lemma ML_NUMBER_RE_succeeds:
  assumes "number_at H g s"
  shows "bt w [Rx (ML_NUMBER_RE H)] prev s False [] \<noteq> None"
proof -
  obtain rest where s: "s = g @ rest" "2 \<le> length g" "length g \<le> 5" "list_all (is_digit H) g"
    using assms unfolding number_at_def by blast
  have "bt w [Rx (rep_range 2 5 (is_digit H)), GrpEnd] prev (g @ rest) True [] \<noteq> None"
    using s by (intro bt_rep_succeeds) auto
  then show ?thesis using s by (simp add: ML_NUMBER_RE_def)
qed

lemma search_ML_NUMBER_RE_none_iff:
  "\<not> (\<exists>pre g s. c = pre @ s \<and> number_at H g s) \<longleftrightarrow> re_search H (ML_NUMBER_RE H) c = None"
proof
  assume "\<not> (\<exists>pre g s. c = pre @ s \<and> number_at H g s)"
  then show "re_search H (ML_NUMBER_RE H) c = None" by (rule search_ML_NUMBER_RE_none)
next
  assume n: "re_search H (ML_NUMBER_RE H) c = None"
  show "\<not> (\<exists>pre g s. c = pre @ s \<and> number_at H g s)"
  proof
    assume "\<exists>pre g s. c = pre @ s \<and> number_at H g s"
    then obtain pre g s where "c = pre @ s" "number_at H g s" by blast
    then have "search_from (is_word H) (ML_NUMBER_RE H) None (pre @ s) \<noteq> None"
      using ML_NUMBER_RE_succeeds [of H g s "is_word H" "step_prev None pre"]
      by (intro search_complete) simp
    then show False using n \<open>c = pre @ s\<close> by (simp add: re_search_def)
  qed
qed

lemma rep_range_2_5:
  "rep_range 2 5 p =
     Cat (Cls p) (Cat (Cls p)
       (opt_rx (Cat (Cls p) (opt_rx (Cat (Cls p) (opt_rx (Cat (Cls p) Eps)))))))"
  by (simp add: eval_nat_numeral)

lemmas rx_eval = re_search_def ML_RE_def ML_NUMBER_RE_def PRICE_RE_def price_number_def
  plus_rx_def opt_rx_def unit_tokens_def str_def remove_commas_def is_digit_def ascii_digit_def
  is_word_def isspace_def lit_def lit_i_def ascii_lower_def at_boundary_def rep_range_2_5



lemma volume_atI:
  "s = g @ ws @ u @ rest \<Longrightarrow> 2 \<le> length g \<Longrightarrow> length g \<le> 5 \<Longrightarrow> list_all (is_digit H) g \<Longrightarrow>
   list_all isspace ws \<Longrightarrow> unit_like u \<Longrightarrow> rest = [] \<or> \<not> is_word H (hd rest) \<Longrightarrow> volume_at H g s"
  unfolding volume_at_def by blast

text \<open>
  With a unit token 5000 is accepted; alone it is out of range and rejected; 750 alone
  is accepted; a text without a number gives nothing.
\<close>

theorem extract_ml_unit_or_range_witness:
  "\<forall>H. extract_ml H (str ''5000 ml'') = Some 5000 \<and> extract_ml H (str ''5000'') = None
      \<and> extract_ml H (str ''750'') = Some 750 \<and> extract_ml H (str ''n/a'') = None"
proof (intro allI conjI)
  fix H
  have v: "volume_at H (str ''5000'') (str ''5000 ml'')"
    by (rule volume_atI [where ws = "str '' ''" and u = "str ''ml''" and rest = "[]"])
      (simp_all add: str_def is_digit_def ascii_digit_def isspace_def unit_like_cases)
  have "extract_ml H (str ''5000 ml'') = Some (py_int H (str ''5000''))"
  proof (rule extract_ml_unit_or_range [THEN conjunct1, rule_format])
    show "remove_commas (str ''5000 ml'') = [] @ str ''5000 ml'' \<and>
          volume_at H (str ''5000'') (str ''5000 ml'') \<and>
          none_before (\<lambda>x. \<exists>g. volume_at H g x) [] (str ''5000 ml'')"
      using v by (simp add: none_before_def str_def remove_commas_def)
  qed
  then show "extract_ml H (str ''5000 ml'') = Some 5000"
    by (simp add: str_def py_int_def digit_val_def)
next
  fix H
  have nv: "\<not> has_volume H (remove_commas (str ''5000''))"
    unfolding search_ML_RE_none by (simp add: rx_eval)
  have b: "bare_number_at H (str ''5000'') (str ''5000'')"
    unfolding bare_number_at_def by (simp add: str_def is_digit_def ascii_digit_def)
  have "extract_ml H (str ''5000'')
     = (if 50 \<le> py_int H (str ''5000'') \<and> py_int H (str ''5000'') \<le> 3000
        then Some (py_int H (str ''5000'')) else None)"
  proof (rule extract_ml_unit_or_range [THEN conjunct2, THEN conjunct1, rule_format])
    show "\<not> has_volume H (remove_commas (str ''5000'')) \<and>
          remove_commas (str ''5000'') = [] @ str ''5000'' \<and>
          bare_number_at H (str ''5000'') (str ''5000'') \<and>
          none_before (\<lambda>x. \<exists>g. number_at H g x) [] (str ''5000'')"
      using nv b by (simp add: none_before_def str_def remove_commas_def)
  qed
  then show "extract_ml H (str ''5000'') = None"
    by (simp add: str_def py_int_def digit_val_def)
next
  fix H
  have nv: "\<not> has_volume H (remove_commas (str ''750''))"
    unfolding search_ML_RE_none by (simp add: rx_eval)
  have b: "bare_number_at H (str ''750'') (str ''750'')"
    unfolding bare_number_at_def by (simp add: str_def is_digit_def ascii_digit_def)
  have "extract_ml H (str ''750'')
     = (if 50 \<le> py_int H (str ''750'') \<and> py_int H (str ''750'') \<le> 3000
        then Some (py_int H (str ''750'')) else None)"
  proof (rule extract_ml_unit_or_range [THEN conjunct2, THEN conjunct1, rule_format])
    show "\<not> has_volume H (remove_commas (str ''750'')) \<and>
          remove_commas (str ''750'') = [] @ str ''750'' \<and>
          bare_number_at H (str ''750'') (str ''750'') \<and>
          none_before (\<lambda>x. \<exists>g. number_at H g x) [] (str ''750'')"
      using nv b by (simp add: none_before_def str_def remove_commas_def)
  qed
  then show "extract_ml H (str ''750'') = Some 750"
    by (simp add: str_def py_int_def digit_val_def)
next
  fix H
  have nv: "\<not> has_volume H (remove_commas (str ''n/a''))"
    unfolding search_ML_RE_none by (simp add: rx_eval)
  have nn: "\<not> (\<exists>pre g s. remove_commas (str ''n/a'') = pre @ s \<and> number_at H g s)"
    unfolding search_ML_NUMBER_RE_none_iff by (simp add: rx_eval)
  show "extract_ml H (str ''n/a'') = None"
    by (rule extract_ml_unit_or_range [THEN conjunct2, THEN conjunct2, rule_format])
      (use nv nn in blast)
qed

lemma remove_commas_digits:
  "list_all (\<lambda>c. ascii_digit c \<or> c = 44) text \<Longrightarrow> list_all ascii_digit (remove_commas text)"
  by (induction "text") (auto simp: remove_commas_def ascii_digit_def)

lemma search_PRICE_RE_digits:
  assumes "ds \<noteq> []" "list_all ascii_digit ds"
  shows "re_search H PRICE_RE ds = Some ds"
proof -
  obtain d ds' where ds: "ds = d # ds'" using assms by (cases ds) auto
  have "bt (is_word H) (Rx (Star ascii_digit) # [Rx (opt_rx (Cat (Cls (\<lambda>c. c = 46 \<or> c = 44)) (plus_rx ascii_digit))), GrpEnd])
          (Some d) (ds' @ []) True [d] = Some (ds, [])"
    by (rule bt_star_greedy) (use assms ds in \<open>auto simp: opt_rx_def step_cap_def\<close>)
  then show ?thesis using assms ds
    by (simp add: re_search_def PRICE_RE_def price_number_def plus_rx_def)
qed

lemma py_float_digits:
  assumes "ds \<noteq> []" "list_all ascii_digit ds"
  shows "py_float ds = Some (binary64 (ascii_int ds) 1)"
proof -
  have tw: "takeWhile ascii_digit ds = ds" "dropWhile ascii_digit ds = []"
    using assms by (simp_all add: list_all_iff)
  show ?thesis using assms(1) by (simp add: py_float_def Let_def tw)
qed

subsection \<open>Price parsing\<close>

text \<open>
  Claim C9.  \<open>parse_price\<close> removes the commas before it matches anything: the result on
  a text is the result on the text without its commas, and a text of digits and commas
  parses to the integer that its digits spell, so that \<open>89,90\<close> is 8990.
\<close>

theorem parse_price_comma_is_separator:
  "parse_price H text = parse_price H (remove_commas text)
   \<and> (list_all (\<lambda>c. ascii_digit c \<or> c = 44) text \<and> remove_commas text \<noteq> []
        \<longrightarrow> parse_price H text = Some (binary64 (ascii_int (remove_commas text)) 1))"
proof (intro conjI impI)
  show "parse_price H text = parse_price H (remove_commas text)"
  proof (cases "remove_commas text = []")
    case True
    then have "parse_price H text = None"
      by (simp add: parse_price_def re_search_def PRICE_RE_def price_number_def plus_rx_def)
    then show ?thesis using True by (simp add: parse_price_def)
  next
    case False
    then have "text \<noteq> []" by (auto simp: remove_commas_def)
    then show ?thesis using False by (simp add: parse_price_def)
  qed
next
  assume a: "list_all (\<lambda>c. ascii_digit c \<or> c = 44) text \<and> remove_commas text \<noteq> []"
  then have "text \<noteq> []" by (auto simp: remove_commas_def)
  moreover have "list_all ascii_digit (remove_commas text)"
    using a by (simp add: remove_commas_digits)
  ultimately show "parse_price H text = Some (binary64 (ascii_int (remove_commas text)) 1)"
    using a by (simp add: parse_price_def search_PRICE_RE_digits py_float_digits)
qed

text \<open>The price \<open>89,90\<close> is 8990, as the price \<open>8990\<close> is.\<close>

theorem parse_price_comma_is_separator_witness:
  "\<forall>H. parse_price H (str ''89,90'') = Some (Finite 8990)
      \<and> parse_price H (str ''89,90'') = parse_price H (str ''8990'')"
proof (intro allI conjI)
  fix H
  have "parse_price H (str ''89,90'') = Some (binary64 (ascii_int (remove_commas (str ''89,90''))) 1)"
    by (rule parse_price_comma_is_separator [THEN conjunct2, rule_format])
      (simp add: str_def remove_commas_def ascii_digit_def)
  also have "binary64 (ascii_int (remove_commas (str ''89,90''))) 1 = Finite 8990"
    by (simp add: str_def remove_commas_def ascii_int_def binary64_def overflow_bound_def
        ilog2_def pow2_def
        round_half_even_def Let_def)
  finally show "parse_price H (str ''89,90'') = Some (Finite 8990)" .
  show "parse_price H (str ''89,90'') = parse_price H (str ''8990'')"
    using parse_price_comma_is_separator [of H "str ''89,90''", THEN conjunct1]
    by (simp add: str_def remove_commas_def)
qed

subsection \<open>Floats and names\<close>

lemma round_half_even_nonneg: "0 \<le> q \<Longrightarrow> 0 \<le> round_half_even q"
  by (auto simp: round_half_even_def Let_def)

lemma pow2_pos: "0 < pow2 e"
  by (simp add: pow2_def)

lemma binary64_nonneg: "float_ge (binary64 n d) 0"
proof -
  have "0 \<le> round_half_even (of_nat n / (of_nat d * pow2 e))" for e
    by (intro round_half_even_nonneg divide_nonneg_nonneg mult_nonneg_nonneg)
       (simp_all add: less_imp_le [OF pow2_pos])
  then show ?thesis
    by (auto simp: binary64_def Let_def less_imp_le [OF pow2_pos])
qed

lemma py_float_nonneg: "py_float s = Some p \<Longrightarrow> float_ge p 0"
  by (auto simp: py_float_def Let_def binary64_nonneg split: if_splits)

lemma parse_price_nonneg: "parse_price H t = Some p \<Longrightarrow> float_ge p 0"
  by (auto simp: parse_price_def py_float_nonneg split: if_splits option.splits)

lemma salvage_price_nonneg: "salvage_price H html = Some p \<Longrightarrow> float_ge p 0"
  by (auto simp: salvage_price_def py_float_nonneg split: option.splits)

lemma sub_ws_hd: "s \<noteq> [] \<Longrightarrow> \<not> isspace (hd s) \<Longrightarrow> sub_ws s \<noteq> [] \<and> hd (sub_ws s) = hd s"
  by (cases s) auto

lemma ws_normal_Cons:
  "ws_normal (c # s) \<longleftrightarrow> (isspace c \<longrightarrow> c = 32 \<and> (s = [] \<or> \<not> isspace (hd s))) \<and> ws_normal s"
  by (cases s) auto

lemma sub_ws_normal: "ws_normal (sub_ws s)"
proof (induction s rule: sub_ws.induct)
  case 1
  then show ?case by simp
next
  case (2 c cs)
  show ?case
  proof (cases "isspace c")
    case True
    have "sub_ws (dropWhile isspace cs) = [] \<or> \<not> isspace (hd (sub_ws (dropWhile isspace cs)))"
    proof (cases "dropWhile isspace cs = []")
      case True
      then show ?thesis by (metis sub_ws.simps(1))
    next
      case False
      then have "\<not> isspace (hd (dropWhile isspace cs))" by (rule hd_dropWhile)
      then show ?thesis using False sub_ws_hd [of "dropWhile isspace cs"] by simp
    qed
    then show ?thesis using True 2 by (auto simp: ws_normal_Cons)
  next
    case False
    then show ?thesis using 2 by (auto simp: ws_normal_Cons)
  qed
qed

lemma sub_ws_id: "ws_normal s \<Longrightarrow> sub_ws s = s"
proof (induction s rule: sub_ws.induct)
  case 1
  then show ?case by simp
next
  case (2 c cs)
  show ?case
  proof (cases "isspace c")
    case True
    then have "c = 32" "cs = [] \<or> \<not> isspace (hd cs)" "ws_normal cs"
      using 2(3) by (auto simp: ws_normal_Cons)
    then have dw: "dropWhile isspace cs = cs" by (cases cs) auto
    then show ?thesis using True 2 \<open>c = 32\<close> \<open>ws_normal cs\<close> by simp
  next
    case False
    then show ?thesis using 2 by (auto simp: ws_normal_Cons)
  qed
qed

lemma ws_normal_append: "ws_normal (xs @ ys) \<Longrightarrow> ws_normal xs \<and> ws_normal ys"
proof (induction xs)
  case Nil
  then show ?case by simp
next
  case (Cons x xs)
  then show ?case by (cases xs; cases ys) (auto simp: ws_normal_Cons)
qed

lemma py_strip_parts: "\<exists>a b. s = a @ py_strip s @ b"
proof -
  have "s = takeWhile isspace s @ dropWhile isspace s" by simp
  moreover have "dropWhile isspace s = py_strip s @ rev (takeWhile isspace (rev (dropWhile isspace s)))"
    unfolding py_strip_def
    by (metis rev_append rev_rev_ident takeWhile_dropWhile_id)
  ultimately show ?thesis by metis
qed

lemma ws_normal_strip: "ws_normal s \<Longrightarrow> ws_normal (py_strip s)"
  using py_strip_parts [of s] ws_normal_append by metis

lemma dropWhile_id: "s = [] \<or> \<not> P (hd s) \<Longrightarrow> dropWhile P s = s"
  by (cases s) auto

lemma py_strip_idem: "py_strip (py_strip s) = py_strip s"
proof -
  define a where "a = dropWhile isspace s"
  define b where "b = dropWhile isspace (rev a)"
  have t: "py_strip s = rev b" by (simp add: py_strip_def a_def b_def)
  have b: "b = [] \<or> \<not> isspace (hd b)" unfolding b_def using hd_dropWhile [of isspace "rev a"] by blast
  have a: "a = [] \<or> \<not> isspace (hd a)" unfolding a_def using hd_dropWhile [of isspace s] by blast
  have "rev a = takeWhile isspace (rev a) @ b" by (simp add: b_def)
  then have "a = rev b @ rev (takeWhile isspace (rev a))" by (metis rev_append rev_rev_ident)
  then have "rev b = [] \<or> hd (rev b) = hd a" by (metis hd_append2)
  then have "rev b = [] \<or> \<not> isspace (hd (rev b))" using a by (metis Nil_is_append_conv \<open>a = rev b @ rev (takeWhile isspace (rev a))\<close>)
  then have "dropWhile isspace (rev b) = rev b" by (rule dropWhile_id)
  moreover have "dropWhile isspace b = b" using b by (rule dropWhile_id)
  ultimately show ?thesis unfolding t by (simp add: py_strip_def)
qed

lemma normalize_name_fixed:
  assumes "38 \<notin> set (normalize_name H raw)"
  shows "normalize_name H (normalize_name H raw) = normalize_name H raw"
proof -
  define n where "n = normalize_name H raw"
  have n: "n = py_strip (sub_ws (unescape H raw))" by (simp add: n_def normalize_name_def)
  have "ws_normal n" unfolding n by (intro ws_normal_strip sub_ws_normal)
  then have "sub_ws n = n" by (rule sub_ws_id)
  moreover have "unescape H n = n" using assms by (simp add: unescape_def n_def)
  moreover have "py_strip n = n" unfolding n by (rule py_strip_idem)
  ultimately show ?thesis unfolding n_def [symmetric] by (simp add: normalize_name_def)
qed

subsection \<open>The strategies\<close>

lemma good_empty: "good_chunk H empty_chunk"
  by (simp add: good_chunk_def empty_chunk_def)

lemma good_price_update:
  "good_chunk H c \<Longrightarrow> good_chunk H (c\<lparr>price_value := parse_price H t\<rparr>)"
  by (auto simp: good_chunk_def parse_price_nonneg split: option.splits)

lemma good_name_update:
  "good_chunk H c \<Longrightarrow> good_chunk H (c\<lparr>name := Some (normalize_name H t)\<rparr>)"
  by (auto simp: good_chunk_def split: option.splits)

lemma good_ml_update:
  "good_chunk H c \<Longrightarrow> good_chunk H (c\<lparr>bottle_size_ml := m\<rparr>)"
  by (auto simp: good_chunk_def split: option.splits)

lemma normalize_name_json_range:
  "normalize_name_json H v = Inr n \<Longrightarrow> n \<in> range (normalize_name H)"
  by (auto simp: normalize_name_json_def split: if_splits json.splits)

lemma ld_name_good: "ld_name H obj data = Inr d \<Longrightarrow> good_chunk H data \<Longrightarrow> good_chunk H d"
  using normalize_name_json_range [of H "jget obj ''name''"]
  by (auto simp: ld_name_def good_chunk_def split: if_splits sum.splits option.splits)

lemma ld_price_good: "ld_price H obj data = Inr d \<Longrightarrow> good_chunk H data \<Longrightarrow> good_chunk H d"
  by (cases "jget obj ''offers''")
     (auto simp: ld_price_def good_price_update split: if_splits sum.splits)

lemma ld_size_good: "good_chunk H data \<Longrightarrow> good_chunk H (ld_size H obj data)"
  by (simp add: ld_size_def Let_def good_ml_update)

lemma json_ld_object_good:
  assumes "json_ld_object H data obj = Inr d" "good_chunk H data"
  shows "good_chunk H d"
proof (cases obj)
  case (JObj kvs)
  show ?thesis
  proof (cases "jget kvs ''@type'' = JStr (str ''Product'')
             \<or> jget kvs ''@type'' = JArr [JStr (str ''Product'')]")
    case False
    then show ?thesis using assms JObj by (simp add: json_ld_object_def)
  next
    case True
    then obtain d1 d2 where "ld_name H kvs data = Inr d1" "ld_price H kvs d1 = Inr d2"
      "d = ld_size H kvs d2"
      using assms(1) JObj by (auto simp: json_ld_object_def split: sum.splits)
    then show ?thesis using assms(2) ld_name_good ld_price_good ld_size_good by blast
  qed
qed (use assms in \<open>simp_all add: json_ld_object_def\<close>)

lemma json_ld_objects_good:
  "json_ld_objects H data objs = Inr d \<Longrightarrow> good_chunk H data \<Longrightarrow> good_chunk H d"
  by (induction objs arbitrary: data) (auto split: sum.splits dest: json_ld_object_good)

lemma json_ld_scripts_good:
  "json_ld_scripts H data tags = Inr d \<Longrightarrow> good_chunk H data \<Longrightarrow> good_chunk H d"
proof (induction H data tags rule: json_ld_scripts.induct)
  case (3 H data payload tags)
  then show ?case by (auto split: sum.splits dest: json_ld_objects_good)
qed auto

lemma from_json_ld_good: "from_json_ld H sp = Inr j \<Longrightarrow> good_chunk H j"
  unfolding from_json_ld_def by (erule json_ld_scripts_good) (rule good_empty)

lemma meta_price_step_good: "good_chunk H d \<Longrightarrow> good_chunk H (meta_price_step H sp d sel)"
  by (auto simp: meta_price_step_def good_price_update split: option.splits)

lemma foldl_meta_price_good:
  "good_chunk H d \<Longrightarrow> good_chunk H (foldl (meta_price_step H sp) d sels)"
  by (induction sels arbitrary: d) (auto simp: meta_price_step_good)

lemma from_meta_tags_good: "good_chunk H (from_meta_tags H sp)"
proof -
  define d1 where "d1 = (case find_meta sp ''property'' ''og:title'' of
                  Some mt \<Rightarrow> empty_chunk\<lparr>name := Some (normalize_name H (attr mt ''content''))\<rparr>
                | None \<Rightarrow> empty_chunk)"
  define d2 where "d2 = foldl (meta_price_step H sp) d1
                 [(''itemprop'', ''price''), (''property'', ''product:price:amount''),
                  (''name'', ''twitter:data1'')]"
  have "good_chunk H d1"
    unfolding d1_def by (simp add: good_empty good_name_update split: option.splits)
  then have g2: "good_chunk H d2" unfolding d2_def by (rule foldl_meta_price_good)
  have "from_meta_tags H sp = (case find_meta sp ''property'' ''og:description'' of
           Some md \<Rightarrow> d2\<lparr>bottle_size_ml := extract_ml H (attr md ''content'')\<rparr>
         | None \<Rightarrow> d2)"
    unfolding from_meta_tags_def Let_def d2_def d1_def ..
  then show ?thesis using g2 by (simp add: good_ml_update split: option.splits)
qed

lemma from_dom_selectors_good: "good_chunk H (from_dom_selectors H sp)"
proof -
  define title where "title = or_else (select_one sp ''h1.page-title .base'')
                    (or_else (select_one sp ''h1 .base'')
                       (or_else (select_one sp ''h1.product-name'') (find_h1 sp)))"
  define d1 where "d1 = (case title of
                  Some t \<Rightarrow> empty_chunk\<lparr>name := Some (normalize_name H (get_text t))\<rparr>
                | None \<Rightarrow> empty_chunk)"
  define price_el where "price_el = or_else (select_one sp ''span.price[data-price-amount]'')
                       (or_else (select_one sp ''.price-wrapper .price'') (find_span_price sp))"
  define d2 where "d2 = (case price_el of
                  Some el \<Rightarrow>
                    d1\<lparr>price_value :=
                      parse_price H (case map_of (attrs el) ''data-price-amount'' of
                                       Some amt \<Rightarrow> if amt \<noteq> [] then amt else get_text el
                                     | None \<Rightarrow> get_text el)\<rparr>
                | None \<Rightarrow> d1)"
  have "good_chunk H d1"
    unfolding d1_def by (simp add: good_empty good_name_update split: option.splits)
  then have g2: "good_chunk H d2"
    unfolding d2_def by (simp add: good_price_update split: option.splits)
  have "\<exists>m. from_dom_selectors H sp = d2 \<or> from_dom_selectors H sp = d2\<lparr>bottle_size_ml := m\<rparr>"
    unfolding from_dom_selectors_def Let_def d2_def d1_def price_el_def title_def by auto
  then show ?thesis using g2 good_ml_update by metis
qed

lemma merge_chunk_good: "good_chunk H a \<Longrightarrow> good_chunk H b \<Longrightarrow> good_chunk H (merge_chunk a b)"
  by (auto simp: good_chunk_def merge_chunk_def)

lemma first_set_none: "\<not> (\<exists>c \<in> set cs. has c) \<Longrightarrow> first_set has field cs = None"
  by (induction cs) auto

lemma first_set_append:
  "first_set has field (cs @ ds) =
     (if \<exists>c \<in> set cs. has c then first_set has field cs else first_set has field ds)"
  by (induction cs) auto

lemma first_set_has:
  "first_set has field cs = Some v \<Longrightarrow> \<exists>c \<in> set cs. has c \<and> field c = Some v"
  by (induction cs) (auto split: if_splits)

lemma has_name_merged: "has_name (merged cs) \<longleftrightarrow> (\<exists>c \<in> set cs. has_name c)"
proof (induction cs)
  case Nil
  then show ?case by (simp add: merged_def has_name_def)
next
  case (Cons c cs)
  then show ?case by (auto simp: merged_def has_name_def)
qed

lemma has_price_merged: "has_price (merged cs) \<longleftrightarrow> (\<exists>c \<in> set cs. has_price c)"
proof (induction cs)
  case Nil
  then show ?case by (simp add: merged_def has_price_def)
next
  case (Cons c cs)
  then show ?case by (auto simp: merged_def has_price_def)
qed

lemma has_ml_merged: "has_ml (merged cs) \<longleftrightarrow> (\<exists>c \<in> set cs. has_ml c)"
proof (induction cs)
  case Nil
  then show ?case by (simp add: merged_def has_ml_def)
next
  case (Cons c cs)
  then show ?case by (auto simp: merged_def has_ml_def)
qed

lemma merged_fields:
  "name (merged cs) = first_set has_name name cs"
  "price_value (merged cs) = first_set has_price price_value cs"
  "bottle_size_ml (merged cs) = first_set has_ml bottle_size_ml cs"
  by (simp_all add: merged_def)

lemma merge_merged: "merge_chunk (merged cs) c = merged (cs @ [c])"
proof (rule chunk.equality)
  show "name (merge_chunk (merged cs) c) = name (merged (cs @ [c]))"
    by (simp add: merge_chunk_def has_name_merged merged_fields first_set_append first_set_none)
  show "price_value (merge_chunk (merged cs) c) = price_value (merged (cs @ [c]))"
    by (simp add: merge_chunk_def has_price_merged merged_fields first_set_append first_set_none)
  show "bottle_size_ml (merge_chunk (merged cs) c) = bottle_size_ml (merged (cs @ [c]))"
    by (simp add: merge_chunk_def has_ml_merged merged_fields first_set_append first_set_none)
qed (simp add: merge_chunk_def merged_def)

lemma merged_Nil: "merged [] = empty_chunk"
  by (simp add: merged_def empty_chunk_def)

lemma merge_three:
  "merge_chunk (merge_chunk (merge_chunk empty_chunk j) m) d = merged [j, m, d]"
  unfolding merged_Nil [symmetric] merge_merged by simp

lemma run_extractors_merged:
  "run_extractors H sp empty_chunk extractors =
     (case from_json_ld H sp of
        Inl e \<Rightarrow> Inl e
      | Inr j \<Rightarrow> Inr (merged [j, from_meta_tags H sp, from_dom_selectors H sp]))"
  by (simp add: extractors_def merge_three split: sum.splits)

lemma run_extractors_good:
  assumes "run_extractors H sp empty_chunk extractors = Inr data"
  shows "good_chunk H data"
proof -
  obtain j where j: "from_json_ld H sp = Inr j"
    and d: "data = merge_chunk (merge_chunk (merge_chunk empty_chunk j) (from_meta_tags H sp))
                     (from_dom_selectors H sp)"
    using assms by (auto simp: extractors_def split: sum.splits)
  show ?thesis unfolding d
    by (intro merge_chunk_good good_empty from_json_ld_good [OF j] from_meta_tags_good
        from_dom_selectors_good)
qed

lemma merged_truthy:
  "name (merged cs) = Some n \<Longrightarrow> n \<noteq> []"
  "price_value (merged cs) = Some p \<Longrightarrow> float_truthy p"
  "bottle_size_ml (merged cs) = Some k \<Longrightarrow> k \<noteq> 0"
  using first_set_has [of has_name name cs n] first_set_has [of has_price price_value cs p]
    first_set_has [of has_ml bottle_size_ml cs k]
  by (auto simp: merged_fields has_name_def has_price_def has_ml_def)

subsection \<open>Product pages\<close>

text \<open>
  Claim C2.  The strategies run in the order structured metadata, meta tags, DOM
  heuristics, and the merged dictionary holds, for each of the three fields, the value
  of the first strategy in that order that has a non-empty one: a later strategy never
  overwrites a field.  In particular, when the structured metadata yield a name, the
  record that \<open>parse_pdp\<close> returns carries it, whatever names the meta tags and the
  headings have: the name of the record is that name normalized once more, which is the
  name itself when it has no ampersand left.
\<close>

theorem merge_first_strategy_wins:
  "(\<forall>j. from_json_ld H sp = Inr j \<longrightarrow>
       run_extractors H sp empty_chunk extractors
         = Inr (merged [j, from_meta_tags H sp, from_dom_selectors H sp]))
   \<and> (\<forall>j n1 parse html url r.
         parse html = sp \<and> from_json_ld H sp = Inr j \<and> name j = Some n1 \<and> n1 \<noteq> []
         \<and> parse_pdp H (Some parse) html url = Inr (Some r)
       \<longrightarrow> rec_name r = normalize_name H n1 \<and> (38 \<notin> set n1 \<longrightarrow> rec_name r = n1))"
proof (rule conjI; intro allI impI)
  fix j
  assume "from_json_ld H sp = Inr j"
  then show "run_extractors H sp empty_chunk extractors
         = Inr (merged [j, from_meta_tags H sp, from_dom_selectors H sp])"
    by (simp add: run_extractors_merged)
next
  fix j n1 parse html url r
  assume a: "parse html = sp \<and> from_json_ld H sp = Inr j \<and> name j = Some n1 \<and> n1 \<noteq> []
         \<and> parse_pdp H (Some parse) html url = Inr (Some r)"
  define data where "data = merged [j, from_meta_tags H sp, from_dom_selectors H sp]"
  have run: "run_extractors H sp empty_chunk extractors = Inr data"
    using a by (simp add: run_extractors_merged data_def)
  have "has_name j" using a by (simp add: has_name_def)
  then have nm: "name data = Some n1" using a by (simp add: data_def merged_fields)
  have "finish_pdp H html url data = Some r"
    using a run by (auto simp: parse_pdp_def Let_def split: if_splits sum.splits bool.splits)
  then have r: "rec_name r = normalize_name H n1"
    using nm by (auto simp: finish_pdp_def Let_def split: if_splits option.splits)
  have "n1 \<in> range (normalize_name H)"
    using a from_json_ld_good [of H sp j] by (auto simp: good_chunk_def)
  then have "38 \<notin> set n1 \<longrightarrow> normalize_name H n1 = n1"
    using normalize_name_fixed by auto
  then show "rec_name r = normalize_name H n1 \<and> (38 \<notin> set n1 \<longrightarrow> rec_name r = n1)"
    using r by simp
qed

text \<open>
  Claim C3.  A record that \<open>parse_pdp\<close> returns has a non-empty name, a price that is
  not negative, a positive bottle size and the URL given.  Its name is the normalized
  merged name; its price is the merged price or, when no strategy gave one, the number
  after the currency sign in the raw page; its size is the merged size or, when no
  strategy gave one, 750.  When the normalized name is empty, or neither a strategy nor
  the raw page gives a price, \<open>parse_pdp\<close> returns no record.
\<close>

theorem parse_pdp_record:
  "(parse_pdp H bs html url = Inr (Some r) \<longrightarrow>
      rec_name r \<noteq> [] \<and> float_ge (rec_price_value r) 0 \<and> 0 < rec_bottle_size_ml r
      \<and> rec_url r = url
      \<and> (\<exists>parse data. bs = Some parse
            \<and> run_extractors H (parse html) empty_chunk extractors = Inr data
            \<and> rec_name r = normalize_name H (case name data of Some s \<Rightarrow> s | None \<Rightarrow> [])
            \<and> (price_value data = Some (rec_price_value r)
                \<or> price_value data = None \<and> salvage_price H html = Some (rec_price_value r))
            \<and> (if has_ml data then bottle_size_ml data = Some (rec_bottle_size_ml r)
                else rec_bottle_size_ml r = 750)))
   \<and> (\<forall>parse data.
         bs = Some parse \<and> run_extractors H (parse html) empty_chunk extractors = Inr data
         \<and> (normalize_name H (case name data of Some s \<Rightarrow> s | None \<Rightarrow> []) = []
              \<or> price_value data = None \<and> salvage_price H html = None)
       \<longrightarrow> (\<forall>r. parse_pdp H bs html url \<noteq> Inr (Some r)))"
proof (rule conjI; intro allI impI)
  assume a: "parse_pdp H bs html url = Inr (Some r)"
  then obtain parse where bs: "bs = Some parse" and "html \<noteq> []"
    by (auto simp: parse_pdp_def split: if_splits option.splits)
  then obtain data where run: "run_extractors H (parse html) empty_chunk extractors = Inr data"
    and fin: "finish_pdp H html url data = Some r"
    using a by (auto simp: parse_pdp_def Let_def split: if_splits sum.splits bool.splits)
  define nm where "nm = normalize_name H (case name data of Some s \<Rightarrow> s | None \<Rightarrow> [])"
  define price where "price = (case price_value data of Some p \<Rightarrow> Some p
                   | None \<Rightarrow> salvage_price H html)"
  define ml where "ml = (case bottle_size_ml data of
                  Some n \<Rightarrow> if n \<noteq> 0 then n else 750
                | None \<Rightarrow> (750::nat))"
  have "nm \<noteq> []" and pr: "price = Some (rec_price_value r)"
    and r: "rec_name r = nm" "rec_bottle_size_ml r = ml" "rec_url r = url"
    using fin unfolding finish_pdp_def Let_def nm_def [symmetric] price_def [symmetric]
      ml_def [symmetric]
    by (auto split: if_splits option.splits)
  have good: "good_chunk H data" using run by (rule run_extractors_good)
  have "float_ge (rec_price_value r) 0"
  proof (cases "price_value data")
    case None
    then show ?thesis using pr salvage_price_nonneg by (simp add: price_def)
  next
    case (Some p)
    then show ?thesis using pr good by (simp add: price_def good_chunk_def)
  qed
  moreover have "0 < ml" by (simp add: ml_def split: option.splits)
  moreover have "price_value data = Some (rec_price_value r)
                \<or> price_value data = None \<and> salvage_price H html = Some (rec_price_value r)"
    using pr by (auto simp: price_def split: option.splits)
  moreover have "if has_ml data then bottle_size_ml data = Some ml else ml = 750"
    by (auto simp: ml_def has_ml_def split: option.splits)
  ultimately show "rec_name r \<noteq> [] \<and> float_ge (rec_price_value r) 0 \<and> 0 < rec_bottle_size_ml r
      \<and> rec_url r = url
      \<and> (\<exists>parse data. bs = Some parse
            \<and> run_extractors H (parse html) empty_chunk extractors = Inr data
            \<and> rec_name r = normalize_name H (case name data of Some s \<Rightarrow> s | None \<Rightarrow> [])
            \<and> (price_value data = Some (rec_price_value r)
                \<or> price_value data = None \<and> salvage_price H html = Some (rec_price_value r))
            \<and> (if has_ml data then bottle_size_ml data = Some (rec_bottle_size_ml r)
                else rec_bottle_size_ml r = 750))"
    using \<open>nm \<noteq> []\<close> r bs run unfolding nm_def by auto
next
  fix parse data r
  assume a: "bs = Some parse \<and> run_extractors H (parse html) empty_chunk extractors = Inr data
         \<and> (normalize_name H (case name data of Some s \<Rightarrow> s | None \<Rightarrow> []) = []
              \<or> price_value data = None \<and> salvage_price H html = None)"
  then have "finish_pdp H html url data = None"
    by (auto simp: finish_pdp_def Let_def)
  then show "parse_pdp H bs html url \<noteq> Inr (Some r)"
    using a by (auto simp: parse_pdp_def Let_def split: sum.splits bool.splits)
qed

text \<open>
  When the structured metadata are read to the end, a page with no product-type marker
  whose structured metadata yield no non-empty name fails the gate, and \<open>parse_pdp\<close>
  returns absent, whatever its meta tags, headings, prices and raw text are.
\<close>

lemma gate_rejects:
  "no_product_marker H (parse html) \<and> from_json_ld H (parse html) = Inr j \<and> \<not> has_name j
   \<longrightarrow> page_looks_like_product H (parse html) = Inr False
       \<and> parse_pdp H (Some parse) html url = Inr None"
  by (auto simp: no_product_marker_def page_looks_like_product_def parse_pdp_def Let_def
      split: option.splits)

text \<open>
  Claim C10.  The gate passes every page whose Open-Graph type, in lower case, contains
  \<open>product\<close> anywhere, whatever its structured metadata are (they are not even read),
  and \<open>parse_pdp\<close> on a non-empty page goes on to the extraction.
\<close>

theorem gate_substring:
  "find_meta sp ''property'' ''og:type'' = Some ogtype
   \<and> sublist (str ''product'') (py_lower H (attr ogtype ''content''))
   \<longrightarrow> page_looks_like_product H sp = Inr True
       \<and> (\<forall>parse html url. html \<noteq> [] \<and> parse html = sp \<longrightarrow>
            parse_pdp H (Some parse) html url
              = (case run_extractors H sp empty_chunk extractors of
                   Inl e \<Rightarrow> Inl e
                 | Inr data \<Rightarrow> Inr (finish_pdp H html url data)))"
  by (auto simp: page_looks_like_product_def parse_pdp_def Let_def)

subsection \<open>The example pages\<close>

lemma str_eq_iff [simp]: "str a = str b \<longleftrightarrow> a = b"
  unfolding str_def by (rule inj_map_eq_map) (rule inj_of_char)

lemma str_Nil_iff [simp]: "str s = [] \<longleftrightarrow> s = []" "[] = str s \<longleftrightarrow> s = []"
  by (auto simp: str_def)

lemmas float_eval = py_float_def binary64_def overflow_bound_def ilog2_def pow2_def
  round_half_even_def ascii_int_def
  ascii_digit_def Let_def

lemmas name_eval = normalize_name_def unescape_def py_strip_def isspace_def

lemma ex_name_Red: "normalize_name H (str ''Red'') = str ''Red''"
  by (simp add: name_eval str_def)

lemma ex_name_White: "normalize_name H (str ''White'') = str ''White''"
  by (simp add: name_eval str_def)

lemma ex_name_Cabernet:
  "normalize_name H (str ''Cabernet Sauvignon 2019'') = str ''Cabernet Sauvignon 2019''"
  by (simp add: name_eval str_def)

lemma ex_price_120: "parse_price H (str ''120.00'') = Some (Finite 120)"
  by (simp add: parse_price_def rx_eval float_eval)

lemma ex_price_8990: "parse_price H (str ''89,90'') = Some (Finite 8990)"
  by (simp add: parse_price_def rx_eval float_eval)

lemma ex_ml_750: "extract_ml H (str ''750 ml'' @ 32 # str ''Red'') = Some 750"
  by (simp add: extract_ml_def rx_eval py_int_def digit_val_def)

lemma ex_ml_White: "extract_ml H (str ''White'') = None"
  by (simp add: extract_ml_def rx_eval)

lemma ex_ld: "from_json_ld H page_ld
    = Inr \<lparr>name = Some (str ''Red''), price_value = Some (Finite 120), bottle_size_ml = Some 750\<rparr>"
  by (simp add: from_json_ld_def page_ld_def json_ld_object_def ld_name_def ld_price_def
      ld_size_def jget_def normalize_name_json_def offer_price_def py_str_def has_name_def
      has_price_def has_ml_def empty_chunk_def ex_name_Red ex_price_120 ex_ml_750 Let_def)

lemma ex_meta_ld: "from_meta_tags H page_ld
    = \<lparr>name = Some (str ''White''), price_value = None, bottle_size_ml = None\<rparr>"
  by (simp add: from_meta_tags_def page_ld_def meta_price_step_def attr_def empty_chunk_def
      ex_name_White Let_def)

lemma ex_dom_ld: "from_dom_selectors H page_ld = empty_chunk"
  by (simp add: from_dom_selectors_def page_ld_def or_else_def List.map_filter_def Let_def)

lemma ex_gate_ld: "page_looks_like_product H page_ld = Inr True"
  by (simp add: page_looks_like_product_def ex_ld has_name_def)

lemma ex_run_ld: "run_extractors H page_ld empty_chunk extractors
    = Inr \<lparr>name = Some (str ''Red''), price_value = Some (Finite 120), bottle_size_ml = Some 750\<rparr>"
  by (simp add: run_extractors_merged ex_ld ex_meta_ld ex_dom_ld merged_def has_name_def
      has_price_def has_ml_def)

lemma ex_pdp_ld: "parse_pdp H (Some (\<lambda>html. page_ld)) (str ''<html>'') (str ''/red'')
    = Inr (Some \<lparr>rec_name = str ''Red'', rec_price_value = Finite 120,
                   rec_bottle_size_ml = 750, rec_url = str ''/red''\<rparr>)"
  by (simp add: parse_pdp_def ex_gate_ld ex_run_ld finish_pdp_def ex_name_Red)

lemma ex_meta_og: "from_meta_tags H page_og
    = \<lparr>name = Some (str ''Cabernet Sauvignon 2019''), price_value = Some (Finite 8990),
        bottle_size_ml = None\<rparr>"
  by (simp add: from_meta_tags_def page_og_def meta_price_step_def attr_def empty_chunk_def
      ex_name_Cabernet ex_price_8990 has_price_def Let_def)

lemma ex_dom_og: "from_dom_selectors H page_og = empty_chunk"
  by (simp add: from_dom_selectors_def page_og_def or_else_def List.map_filter_def Let_def)

lemma ex_ld_og: "from_json_ld H page_og = Inr empty_chunk"
  by (simp add: from_json_ld_def page_og_def)

lemma ex_lower_og: "py_lower H (str ''Product.Group'') = str ''product.group''"
  by (simp add: py_lower_def str_def ascii_lower_def)

lemma ex_sublist_og: "sublist (str ''product'') (str ''product.group'')"
  by (simp add: str_def sublist_Cons_right)

lemma ex_run_og: "run_extractors H page_og empty_chunk extractors
    = Inr \<lparr>name = Some (str ''Cabernet Sauvignon 2019''), price_value = Some (Finite 8990),
            bottle_size_ml = None\<rparr>"
  unfolding run_extractors_merged
  by (simp add: ex_ld_og ex_meta_og ex_dom_og merged_def has_name_def
      has_price_def has_ml_def empty_chunk_def)

lemma ex_finish_og:
  "finish_pdp H (str ''<html>'') (str ''/cab'')
     \<lparr>name = Some (str ''Cabernet Sauvignon 2019''), price_value = Some (Finite 8990),
            bottle_size_ml = None\<rparr>
   = Some \<lparr>rec_name = str ''Cabernet Sauvignon 2019'', rec_price_value = Finite 8990,
             rec_bottle_size_ml = 750, rec_url = str ''/cab''\<rparr>"
  by (simp add: finish_pdp_def ex_name_Cabernet)

lemma ex_ld_plain: "from_json_ld H page_plain = Inr empty_chunk"
  by (simp add: from_json_ld_def page_plain_def)

lemma ex_marker_plain: "no_product_marker H page_plain"
  by (simp add: no_product_marker_def page_plain_def)

text \<open>
  The structured metadata say \<open>Red\<close>, the Open-Graph title says \<open>White\<close>: the record is
  named \<open>Red\<close>.
\<close>

theorem merge_first_strategy_wins_witness:
  "\<forall>H. name (from_meta_tags H page_ld) = Some (str ''White'')
      \<and> (\<exists>j r. from_json_ld H page_ld = Inr j \<and> name j = Some (str ''Red'')
            \<and> parse_pdp H (Some (\<lambda>html. page_ld)) (str ''<html>'') (str ''/red'') = Inr (Some r)
            \<and> rec_name r = str ''Red'')"
proof (intro allI conjI)
  fix H
  show "name (from_meta_tags H page_ld) = Some (str ''White'')" by (simp add: ex_meta_ld)
  define r where "r = \<lparr>rec_name = str ''Red'', rec_price_value = Finite 120,
                   rec_bottle_size_ml = 750, rec_url = str ''/red''\<rparr>"
  define j where "j = \<lparr>name = Some (str ''Red''), price_value = Some (Finite 120),
                         bottle_size_ml = Some 750\<rparr>"
  have p: "parse_pdp H (Some (\<lambda>html. page_ld)) (str ''<html>'') (str ''/red'') = Inr (Some r)"
    by (simp add: ex_pdp_ld r_def)
  have "rec_name r = normalize_name H (str ''Red'')
        \<and> (38 \<notin> set (str ''Red'') \<longrightarrow> rec_name r = str ''Red'')"
    by (rule merge_first_strategy_wins [THEN conjunct2, rule_format,
          where sp = page_ld and parse = "\<lambda>html. page_ld" and j = j
            and html = "str ''<html>''" and url = "str ''/red''"])
       (simp add: ex_ld j_def p)
  moreover have "38 \<notin> set (str ''Red'')" by (simp add: str_def)
  ultimately have "rec_name r = str ''Red''" by blast
  then show "\<exists>j r. from_json_ld H page_ld = Inr j \<and> name j = Some (str ''Red'')
            \<and> parse_pdp H (Some (\<lambda>html. page_ld)) (str ''<html>'') (str ''/red'') = Inr (Some r)
            \<and> rec_name r = str ''Red''"
    using p ex_ld [of H] by (intro exI [of _ j] exI [of _ r]) (simp add: j_def)
qed

lemma ex_run_title: "run_extractors H page_title_only empty_chunk extractors
    = Inr \<lparr>name = Some (str ''White''), price_value = None, bottle_size_ml = None\<rparr>"
proof -
  have "from_json_ld H page_title_only = Inr empty_chunk"
    by (simp add: from_json_ld_def page_title_only_def)
  moreover have "from_meta_tags H page_title_only
      = \<lparr>name = Some (str ''White''), price_value = None, bottle_size_ml = None\<rparr>"
    by (simp add: from_meta_tags_def page_title_only_def meta_price_step_def attr_def
        empty_chunk_def ex_name_White Let_def)
  moreover have "from_dom_selectors H page_title_only = empty_chunk"
    by (simp add: from_dom_selectors_def page_title_only_def or_else_def List.map_filter_def
        Let_def)
  ultimately show ?thesis
    unfolding run_extractors_merged
    by (simp add: merged_def has_name_def has_price_def has_ml_def empty_chunk_def)
qed

lemma ex_salvage_none: "salvage_price H (str ''<html>'') = None"
  by (simp add: salvage_price_def SHEKEL_RE_def re_search_def str_def lit_def)

text \<open>
  The page with structured data gives a record with these properties; the page with a
  marker and a title but no price gives none.
\<close>

theorem parse_pdp_record_witness:
  "\<forall>H. (\<exists>r. parse_pdp H (Some (\<lambda>html. page_ld)) (str ''<html>'') (str ''/red'') = Inr (Some r)
            \<and> rec_name r \<noteq> [] \<and> float_ge (rec_price_value r) 0 \<and> 0 < rec_bottle_size_ml r
            \<and> rec_url r = str ''/red'')
      \<and> (\<forall>r. parse_pdp H (Some (\<lambda>html. page_title_only)) (str ''<html>'') (str ''/w'')
              \<noteq> Inr (Some r))"
proof (intro allI conjI)
  fix H
  define r where "r = \<lparr>rec_name = str ''Red'', rec_price_value = Finite 120,
                   rec_bottle_size_ml = 750, rec_url = str ''/red''\<rparr>"
  have p: "parse_pdp H (Some (\<lambda>html. page_ld)) (str ''<html>'') (str ''/red'') = Inr (Some r)"
    by (simp add: ex_pdp_ld r_def)
  from parse_pdp_record [THEN conjunct1, rule_format, OF p]
  have "rec_name r \<noteq> [] \<and> float_ge (rec_price_value r) 0 \<and> 0 < rec_bottle_size_ml r
            \<and> rec_url r = str ''/red''"
    by blast
  then show "\<exists>r. parse_pdp H (Some (\<lambda>html. page_ld)) (str ''<html>'') (str ''/red'') = Inr (Some r)
            \<and> rec_name r \<noteq> [] \<and> float_ge (rec_price_value r) 0 \<and> 0 < rec_bottle_size_ml r
            \<and> rec_url r = str ''/red''"
    using p by blast
next
  fix H r
  show "parse_pdp H (Some (\<lambda>html. page_title_only)) (str ''<html>'') (str ''/w'') \<noteq> Inr (Some r)"
    by (rule parse_pdp_record [THEN conjunct2, rule_format,
          where parse = "\<lambda>html. page_title_only"
            and data = "\<lparr>name = Some (str ''White''), price_value = None, bottle_size_ml = None\<rparr>"])
       (simp add: ex_run_title ex_salvage_none)
qed

text \<open>
  A page with a heading, a price element and a price after the currency sign in its raw
  text, but no marker and no structured data, is rejected.
\<close>

lemma ex_pdp_plain:
  "\<forall>H. parse_pdp H (Some (\<lambda>html. page_plain)) (str ''<h1>Merlot</h1> '' @ [8362] @ str '' 89'')
          (str ''/m'') = Inr None"
proof
  fix H
  have "page_looks_like_product H ((\<lambda>html. page_plain) (str ''<h1>Merlot</h1> '' @ [8362] @ str '' 89''))
          = Inr False
       \<and> parse_pdp H (Some (\<lambda>html. page_plain)) (str ''<h1>Merlot</h1> '' @ [8362] @ str '' 89'')
          (str ''/m'') = Inr None"
    by (rule gate_rejects [rule_format, where j = empty_chunk])
       (simp add: ex_marker_plain ex_ld_plain has_name_def empty_chunk_def)
  then show "parse_pdp H (Some (\<lambda>html. page_plain)) (str ''<h1>Merlot</h1> '' @ [8362] @ str '' 89'')
          (str ''/m'') = Inr None"
    by simp
qed

lemma ex_ld_untyped_name: "from_json_ld H page_untyped_name = Inl TypeError"
  by (simp add: from_json_ld_def page_untyped_name_def json_ld_object_def ld_name_def jget_def
      normalize_name_json_def has_name_def empty_chunk_def)

lemma ex_ld_untyped_offer: "from_json_ld H page_untyped_offer = Inl AttributeError"
  by (simp add: from_json_ld_def page_untyped_offer_def json_ld_object_def ld_name_def ld_price_def
      jget_def offer_price_def has_name_def empty_chunk_def)

text \<open>
  Claim C4.  A page can have no product-type marker and structured metadata that yield
  no name because reading them raises: on a product whose name is the number 5,
  \<open>html.unescape\<close> raises \<open>TypeError\<close>; on an offer whose \<open>priceSpecification\<close> is a list,
  \<open>.get\<close> raises \<open>AttributeError\<close>.  Nothing in \<open>page_looks_like_product\<close> or \<open>parse_pdp\<close>
  catches the exception, so \<open>parse_pdp\<close> raises on these pages and does not return
  absent.
\<close>

theorem gate_raises:
  "no_product_marker H page_untyped_name
   \<and> from_json_ld H page_untyped_name = Inl TypeError
   \<and> page_looks_like_product H page_untyped_name = Inl TypeError
   \<and> parse_pdp H (Some (\<lambda>html. page_untyped_name)) (str ''<html>'') (str ''/m'') = Inl TypeError
   \<and> no_product_marker H page_untyped_offer
   \<and> from_json_ld H page_untyped_offer = Inl AttributeError
   \<and> parse_pdp H (Some (\<lambda>html. page_untyped_offer)) (str ''<html>'') (str ''/m'')
       = Inl AttributeError"
  by (simp add: ex_ld_untyped_name ex_ld_untyped_offer parse_pdp_def page_looks_like_product_def
      no_product_marker_def page_untyped_name_def [THEN arg_cong [where f = "find_meta"]]
      page_untyped_offer_def [THEN arg_cong [where f = "find_meta"]])

text \<open>
  The page typed \<open>Product.Group\<close> passes the gate and gives a record; its price
  \<open>89,90\<close> is 8990.
\<close>

theorem gate_substring_witness:
  "\<forall>H. page_looks_like_product H page_og = Inr True
      \<and> parse_pdp H (Some (\<lambda>html. page_og)) (str ''<html>'') (str ''/cab'')
          = Inr (Some \<lparr>rec_name = str ''Cabernet Sauvignon 2019'', rec_price_value = Finite 8990,
                         rec_bottle_size_ml = 750, rec_url = str ''/cab''\<rparr>)"
proof (rule allI)
  fix H
  have g: "page_looks_like_product H page_og = Inr True
       \<and> (\<forall>parse html url. html \<noteq> [] \<and> parse html = page_og \<longrightarrow>
            parse_pdp H (Some parse) html url
              = (case run_extractors H page_og empty_chunk extractors of
                   Inl e \<Rightarrow> Inl e
                 | Inr data \<Rightarrow> Inr (finish_pdp H html url data)))"
    by (rule gate_substring [rule_format, where ogtype = "[(''content'', str ''Product.Group'')]"])
       (simp add: page_og_def attr_def ex_lower_og ex_sublist_og)
  then have "parse_pdp H (Some (\<lambda>html. page_og)) (str ''<html>'') (str ''/cab'')
              = (case run_extractors H page_og empty_chunk extractors of
                   Inl e \<Rightarrow> Inl e
                 | Inr data \<Rightarrow> Inr (finish_pdp H (str ''<html>'') (str ''/cab'') data))"
    by simp
  then show "page_looks_like_product H page_og = Inr True
      \<and> parse_pdp H (Some (\<lambda>html. page_og)) (str ''<html>'') (str ''/cab'')
          = Inr (Some \<lparr>rec_name = str ''Cabernet Sauvignon 2019'', rec_price_value = Finite 8990,
                         rec_bottle_size_ml = 750, rec_url = str ''/cab''\<rparr>)"
    using g by (simp add: ex_run_og ex_finish_og)
qed

subsection \<open>Rounding\<close>

text \<open>
  \<open>binary64\<close> rounds to the nearest float, so it is monotone against the numbers that
  are floats themselves, and its relative error is at most \<open>2^-53\<close> in the normal range.
\<close>

lemma pow2_powi: "pow2 e = 2 powi e"
  by (simp add: pow2_def power_int_def power_one_over inverse_eq_divide)

lemma floor_log2_bounds:
  "0 < n \<Longrightarrow> 2 ^ floor_log2 n \<le> n \<and> n < 2 ^ Suc (floor_log2 n)"
proof (induction n rule: floor_log2.induct)
  case (1 n)
  show ?case
  proof (cases "n < 2")
    case True
    then show ?thesis using 1 by simp
  next
    case False
    then have "2 ^ floor_log2 (n div 2) \<le> n div 2 \<and> n div 2 < 2 ^ Suc (floor_log2 (n div 2))"
      using 1 by simp
    moreover have "floor_log2 n = Suc (floor_log2 (n div 2))"
      using False by (subst floor_log2.simps) simp
    ultimately show ?thesis by (simp del: floor_log2.simps) linarith
  qed
qed

lemma ilog2_bounds:
  assumes "0 < n" "0 < d"
  shows "pow2 (ilog2 n d) \<le> of_nat n / of_nat d" "of_nat n / of_nat d < pow2 (ilog2 n d + 1)"
proof -
  define a where "a = floor_log2 n"
  define b where "b = floor_log2 d"
  define t where "t = int a - int b"
  define q :: rat where "q = of_nat n / of_nat d"
  have na: "(2::rat) ^ a \<le> of_nat n" "(of_nat n :: rat) < 2 ^ Suc a"
    using floor_log2_bounds [OF assms(1)] unfolding a_def
    by (metis of_nat_le_iff of_nat_numeral of_nat_power, metis of_nat_less_iff of_nat_numeral of_nat_power)
  have db: "(2::rat) ^ b \<le> of_nat d" "(of_nat d :: rat) < 2 ^ Suc b"
    using floor_log2_bounds [OF assms(2)] unfolding b_def
    by (metis of_nat_le_iff of_nat_numeral of_nat_power, metis of_nat_less_iff of_nat_numeral of_nat_power)
  have dpos: "(0::rat) < of_nat d" using assms by simp
  have t: "(2::rat) powi t = 2 ^ a / 2 ^ b"
    unfolding t_def by (simp add: power_int_diff)
  have up: "q < 2 powi (t + 1)"
  proof -
    have "of_nat n * (2::rat) ^ b < 2 ^ Suc a * of_nat d"
      using na db dpos by (intro mult_less_le_imp_less) auto
    then have "q < 2 ^ Suc a / 2 ^ b"
      unfolding q_def using dpos by (simp add: field_simps)
    also have "\<dots> = 2 powi (t + 1)" by (simp add: power_int_add t)
    finally show ?thesis .
  qed
  have low: "2 powi (t - 1) < q"
  proof -
    have "(2::rat) ^ a * of_nat d < of_nat n * 2 ^ Suc b"
      using na db dpos by (intro mult_le_less_imp_less) auto
    then have "2 ^ a / 2 ^ Suc b < q"
      unfolding q_def using dpos by (simp add: field_simps)
    moreover have "(2::rat) powi (t - 1) = 2 ^ a / 2 ^ Suc b"
      by (simp add: power_int_diff t)
    ultimately show ?thesis by simp
  qed
  have il: "ilog2 n d = (if 2 powi t \<le> q then t else t - 1)"
    unfolding ilog2_def Let_def a_def [symmetric] b_def [symmetric] t_def [symmetric] pow2_powi q_def
    using dpos by (simp add: field_simps)
  show "pow2 (ilog2 n d) \<le> of_nat n / of_nat d"
    using low unfolding il pow2_powi q_def [symmetric] by auto
  show "of_nat n / of_nat d < pow2 (ilog2 n d + 1)"
    using up unfolding il pow2_powi q_def [symmetric] by auto
qed

lemma rhe_lower: "of_int i \<le> q \<Longrightarrow> i \<le> round_half_even q"
proof -
  assume "of_int i \<le> q"
  then have "i \<le> \<lfloor>q\<rfloor>" by (simp add: le_floor_iff)
  then show ?thesis by (auto simp: round_half_even_def Let_def)
qed

lemma rhe_upper: "q \<le> of_int i \<Longrightarrow> round_half_even q \<le> i"
proof (cases "q = of_int i")
  case True
  then show ?thesis by (simp add: round_half_even_def Let_def)
next
  case False
  assume "q \<le> of_int i"
  then have "q < of_int i" using False by simp
  then have "\<lfloor>q\<rfloor> < i" by (simp add: floor_less_iff)
  then show ?thesis by (auto simp: round_half_even_def Let_def)
qed

lemma powi_less_exp: "(2::rat) powi a < 2 powi b \<Longrightarrow> a < b"
  using power_int_increasing [of b a "2::rat"] by (cases "a < b") auto

lemma powi_int: "0 \<le> k \<Longrightarrow> (2::rat) powi k = of_int (2 ^ nat k)"
  by (simp add: power_int_def)

lemma representable_nonneg: "representable y \<Longrightarrow> 0 \<le> y"
  by (auto simp: representable_def pow2_powi)

lemma binary64_pos:
  assumes "0 < n"
  shows "binary64 n d =
    (if overflow_bound \<le> of_int (round_half_even (of_nat n / (of_nat d * 2 powi (max (ilog2 n d - 52) (- 1074)))))
        * 2 powi (max (ilog2 n d - 52) (- 1074))
     then Infinity
     else Finite (of_int (round_half_even (of_nat n / (of_nat d * 2 powi (max (ilog2 n d - 52) (- 1074)))))
        * 2 powi (max (ilog2 n d - 52) (- 1074))))"
  unfolding binary64_def Let_def pow2_powi using assms by simp

lemma binary64_le:
  assumes "0 < d" "representable y" "of_nat n / of_nat d \<le> y" "y < overflow_bound"
  shows "float_le (binary64 n d) y"
proof (cases "n = 0")
  case True
  then show ?thesis using representable_nonneg [OF assms(2)] by (simp add: binary64_def)
next
  case False
  then have n: "0 < n" by simp
  define x :: rat where "x = of_nat n / of_nat d"
  define e where "e = max (ilog2 n d - 52) (- 1074)"
  obtain m0 e0 where y: "y = of_nat m0 * 2 powi e0" "m0 < 2 ^ 53" "- 1074 \<le> e0"
    using assms(2) by (auto simp: representable_def pow2_powi)
  have "2 powi (ilog2 n d) \<le> x" using ilog2_bounds(1) [OF n assms(1)] by (simp add: x_def pow2_powi)
  also have "x \<le> y" using assms(3) by (simp add: x_def)
  also have "y < 2 ^ 53 * 2 powi e0"
  proof -
    have "(of_nat m0 :: rat) < 2 ^ 53"
      using y(2) by (metis of_nat_less_iff of_nat_numeral of_nat_power)
    then show ?thesis unfolding y by (rule mult_strict_right_mono) simp
  qed
  also have "\<dots> = 2 powi (53 + e0)" by (simp add: power_int_add)
  finally have "ilog2 n d < 53 + e0" by (rule powi_less_exp)
  then have e: "e \<le> e0" using y(3) by (simp add: e_def)
  have yi: "y / 2 powi e = of_int (int m0 * 2 ^ nat (e0 - e))"
  proof -
    have "2 powi e0 = (2::rat) powi (e0 - e) * 2 powi e" by (simp flip: power_int_add)
    then have "y / 2 powi e = of_nat m0 * 2 powi (e0 - e)" unfolding y by simp
    then show ?thesis using e by (simp add: powi_int)
  qed
  have "x / 2 powi e \<le> y / 2 powi e" using \<open>x \<le> y\<close> by (simp add: divide_right_mono)
  then have "round_half_even (x / 2 powi e) \<le> int m0 * 2 ^ nat (e0 - e)"
    unfolding yi by (rule rhe_upper)
  then have "(of_int (round_half_even (x / 2 powi e)) :: rat) \<le> of_int (int m0 * 2 ^ nat (e0 - e))"
    by (simp only: of_int_le_iff)
  then have "of_int (round_half_even (x / 2 powi e)) \<le> y / 2 powi e" unfolding yi .
  then have v: "of_int (round_half_even (x / 2 powi e)) * 2 powi e \<le> y"
    by (simp add: field_simps)
  have "x / 2 powi e = of_nat n / (of_nat d * 2 powi e)" by (simp add: x_def)
  then have "of_int (round_half_even (of_nat n / (of_nat d * 2 powi e))) * 2 powi e \<le> y"
    using v by simp
  then show ?thesis
    using assms(4) unfolding binary64_pos [OF n] e_def [symmetric] by auto
qed

lemma binary64_ge:
  assumes "0 < d" "representable y" "y \<le> of_nat n / of_nat d"
  shows "float_ge (binary64 n d) y"
proof (cases "n = 0")
  case True
  then have "y = 0" using representable_nonneg [OF assms(2)] assms(3) by simp
  then show ?thesis using True by (simp add: binary64_def)
next
  case False
  then have n: "0 < n" by simp
  define x :: rat where "x = of_nat n / of_nat d"
  define e where "e = max (ilog2 n d - 52) (- 1074)"
  obtain m0 e0 where y: "y = of_nat m0 * 2 powi e0" "m0 < 2 ^ 53" "- 1074 \<le> e0"
    using assms(2) by (auto simp: representable_def pow2_powi)
  have xy: "y \<le> x" using assms(3) by (simp add: x_def)
  have v: "y \<le> of_int (round_half_even (x / 2 powi e)) * 2 powi e"
  proof (cases "e \<le> e0")
    case True
    have yi: "y / 2 powi e = of_int (int m0 * 2 ^ nat (e0 - e))"
    proof -
      have "2 powi e0 = (2::rat) powi (e0 - e) * 2 powi e" by (simp flip: power_int_add)
      then have "y / 2 powi e = of_nat m0 * 2 powi (e0 - e)" unfolding y by simp
      then show ?thesis using True by (simp add: powi_int)
    qed
    have "y / 2 powi e \<le> x / 2 powi e" using xy by (simp add: divide_right_mono)
    then have "int m0 * 2 ^ nat (e0 - e) \<le> round_half_even (x / 2 powi e)"
      unfolding yi by (rule rhe_lower)
    then have "(of_int (int m0 * 2 ^ nat (e0 - e)) :: rat) \<le> of_int (round_half_even (x / 2 powi e))"
      by (simp only: of_int_le_iff)
    then have "y / 2 powi e \<le> of_int (round_half_even (x / 2 powi e))" unfolding yi .
    then show ?thesis by (simp add: field_simps)
  next
    case False
    then have gt: "e0 < e" by simp
    then have ee: "e = ilog2 n d - 52" using y(3) by (simp add: e_def)
    have "2 powi (e + 52) \<le> x"
      using ilog2_bounds(1) [OF n assms(1)] by (simp add: x_def pow2_powi ee)
    then have "2 powi 52 \<le> x / 2 powi e" by (simp add: power_int_add field_simps)
    then have "of_int (2 ^ 52) \<le> x / 2 powi e" by simp
    then have "2 ^ 52 \<le> round_half_even (x / 2 powi e)" by (rule rhe_lower)
    then have "(of_int (2 ^ 52) :: rat) \<le> of_int (round_half_even (x / 2 powi e))"
      by (simp only: of_int_le_iff)
    then have "(2::rat) ^ 52 * 2 powi e \<le> of_int (round_half_even (x / 2 powi e)) * 2 powi e"
      by (intro mult_right_mono) auto
    moreover have "y \<le> 2 ^ 53 * 2 powi e0"
    proof -
      have "(of_nat m0 :: rat) < 2 ^ 53"
        using y(2) by (metis of_nat_less_iff of_nat_numeral of_nat_power)
      then have "(of_nat m0 :: rat) \<le> 2 ^ 53" by (rule less_imp_le)
      then show ?thesis unfolding y by (rule mult_right_mono) simp
    qed
    moreover have "(2::rat) ^ 53 * 2 powi e0 \<le> 2 ^ 52 * 2 powi e"
    proof -
      have "(2::rat) powi (53 + e0) \<le> 2 powi (52 + e)" using gt by (intro power_int_increasing) auto
      then show ?thesis by (simp add: power_int_add)
    qed
    ultimately show ?thesis by linarith
  qed
  have "x / 2 powi e = of_nat n / (of_nat d * 2 powi e)" by (simp add: x_def)
  then have "y \<le> of_int (round_half_even (of_nat n / (of_nat d * 2 powi e))) * 2 powi e"
    using v by simp
  then show ?thesis
    unfolding binary64_pos [OF n] e_def [symmetric] by auto
qed

lemma five_lt_overflow: "5 < overflow_bound"
  by (simp add: overflow_bound_def)

lemma representable_small: "representable (5 / 2)" "representable 5" "representable 3"
  unfolding representable_def
  by (rule exI [of _ 5], rule exI [of _ "- 1"], simp add: pow2_def,
      rule exI [of _ 5], rule exI [of _ 0], simp add: pow2_def,
      rule exI [of _ 3], rule exI [of _ 0], simp add: pow2_def)

lemma rhe_near_aux:
  fixes q :: rat
  assumes "of_int f \<le> q" "q < of_int f + 1"
  shows "of_int (if q - of_int f < 1 / 2 then f else if 1 / 2 < q - of_int f then f + 1
                 else if even f then f else f + 1) \<le> q + 1 / 2
         \<and> q - 1 / 2 \<le> of_int (if q - of_int f < 1 / 2 then f else if 1 / 2 < q - of_int f then f + 1
                 else if even f then f else f + 1)"
  using assms by auto

lemma rhe_near: "of_int (round_half_even q) \<le> q + 1 / 2 \<and> q - 1 / 2 \<le> of_int (round_half_even q)"
proof -
  have "of_int \<lfloor>q\<rfloor> \<le> q" "q < of_int \<lfloor>q\<rfloor> + 1" by linarith+
  then show ?thesis unfolding round_half_even_def Let_def by (rule rhe_near_aux)
qed

lemma bound_lt_overflow: "2001 < overflow_bound"
  by (simp add: overflow_bound_def)

lemma binary64_rel:
  assumes "0 < n" "0 < d" "1 \<le> (of_nat n / of_nat d :: rat)" "(of_nat n / of_nat d :: rat) \<le> 1000"
  shows "\<exists>y. binary64 n d = Finite y
           \<and> of_nat n / of_nat d * (1 - 1 / 2 ^ 53) \<le> y
           \<and> y \<le> of_nat n / of_nat d * (1 + 1 / 2 ^ 53)"
proof -
  define x :: rat where "x = of_nat n / of_nat d"
  define e where "e = max (ilog2 n d - 52) (- 1074)"
  define m where "m = round_half_even (x / 2 powi e)"
  have "(2::rat) powi 0 \<le> x" using assms(3) by (simp add: x_def)
  also have "x < 2 powi (ilog2 n d + 1)"
    using ilog2_bounds(2) [OF assms(1,2)] by (simp add: x_def pow2_powi)
  finally have "0 < ilog2 n d + 1" by (rule powi_less_exp)
  then have e: "e = ilog2 n d - 52" by (simp add: e_def)
  have "2 powi (e + 52) \<le> x"
    using ilog2_bounds(1) [OF assms(1,2)] by (simp add: x_def pow2_powi e)
  then have half: "2 powi e / 2 \<le> x / 2 ^ 53"
    by (simp add: power_int_add field_simps)
  have pe: "(0::rat) < 2 powi e" by simp
  have "of_int m \<le> x / 2 powi e + 1 / 2" "x / 2 powi e - 1 / 2 \<le> of_int m"
    using rhe_near [of "x / 2 powi e"] by (simp_all add: m_def)
  then have "of_int m * 2 powi e \<le> (x / 2 powi e + 1 / 2) * 2 powi e"
    "(x / 2 powi e - 1 / 2) * 2 powi e \<le> of_int m * 2 powi e"
    using pe by (simp_all only: mult_le_cancel_right_pos)
  moreover have xp: "x / 2 powi e * 2 powi e = x" by simp
  then have "(x / 2 powi e + 1 / 2) * 2 powi e = x + 2 powi e / 2"
    "(x / 2 powi e - 1 / 2) * 2 powi e = x - 2 powi e / 2"
    by (simp_all only: distrib_right left_diff_distrib xp)
  ultimately have "of_int m * 2 powi e \<le> x + 2 powi e / 2" "x - 2 powi e / 2 \<le> of_int m * 2 powi e"
    by simp_all
  then have y: "x * (1 - 1 / 2 ^ 53) \<le> of_int m * 2 powi e" "of_int m * 2 powi e \<le> x * (1 + 1 / 2 ^ 53)"
    using half by (simp_all add: algebra_simps)
  have "x * (1 + 1 / 2 ^ 53) \<le> 1000 * 2" using assms(4) by (simp add: x_def field_simps)
  then have "of_int m * 2 powi e < overflow_bound" using y(2) bound_lt_overflow by linarith
  moreover have "x / 2 powi e = of_nat n / (of_nat d * 2 powi e)" by (simp add: x_def)
  ultimately have "binary64 n d = Finite (of_int m * 2 powi e)"
    unfolding binary64_pos [OF assms(1)] e_def [symmetric] m_def by simp
  then show ?thesis using y unfolding x_def by blast
qed

lemma quotient_nonneg:
  assumes "0 \<le> q" "quotient_of q = (n, d)"
  shows "0 \<le> n" "0 < d" "q = of_nat (nat n) / of_nat (nat d)"
proof -
  show d: "0 < d" using assms(2) by (rule quotient_of_denom_pos)
  have q: "q = of_int n / of_int d" using assms(2) by (rule quotient_of_div)
  then show n: "0 \<le> n" using assms(1) d by (simp add: zero_le_divide_iff)
  show "q = of_nat (nat n) / of_nat (nat d)" using q n d by simp
qed

lemma float_of_rat_le:
  assumes "0 \<le> q" "representable y" "q \<le> y" "y < overflow_bound"
  shows "float_le (float_of_rat q) y"
proof -
  obtain n d where nd: "quotient_of q = (n, d)" by (cases "quotient_of q")
  note f = quotient_nonneg [OF assms(1) nd]
  have "float_le (binary64 (nat n) (nat d)) y"
    using f assms by (intro binary64_le) auto
  then show ?thesis by (simp add: float_of_rat_def nd)
qed

lemma float_of_rat_ge:
  assumes "0 \<le> q" "representable y" "y \<le> q"
  shows "float_ge (float_of_rat q) y"
proof -
  obtain n d where nd: "quotient_of q = (n, d)" by (cases "quotient_of q")
  note f = quotient_nonneg [OF assms(1) nd]
  have "float_ge (binary64 (nat n) (nat d)) y"
    using f assms by (intro binary64_ge) auto
  then show ?thesis by (simp add: float_of_rat_def nd)
qed

lemma float_of_rat_rel:
  assumes "1 \<le> q" "q \<le> 1000"
  shows "\<exists>y. float_of_rat q = Finite y \<and> q * (1 - 1 / 2 ^ 53) \<le> y \<and> y \<le> q * (1 + 1 / 2 ^ 53)"
proof -
  obtain n d where nd: "quotient_of q = (n, d)" by (cases "quotient_of q")
  have q0: "0 \<le> q" using assms by simp
  note f = quotient_nonneg [OF q0 nd]
  have "0 < nat n" using f assms by (cases "n = 0") auto
  then have "\<exists>y. binary64 (nat n) (nat d) = Finite y
           \<and> of_nat (nat n) / of_nat (nat d) * (1 - 1 / 2 ^ 53) \<le> y
           \<and> y \<le> of_nat (nat n) / of_nat (nat d) * (1 + 1 / 2 ^ 53)"
    using f assms by (intro binary64_rel) auto
  moreover have "float_of_rat q = binary64 (nat n) (nat d)" by (simp add: float_of_rat_def nd)
  ultimately show ?thesis unfolding f(3) [symmetric] by simp
qed

subsection \<open>Ratings\<close>

lemma bt_keeps_cap:
  "bt w k prev s ing cap = Some r \<Longrightarrow> list_all grp_free_item k \<Longrightarrow> \<not> ing \<Longrightarrow> fst r = cap"
  by (induction w k prev s ing cap rule: bt.induct) (auto split: if_splits option.splits)

lemma grp_free_word: "grp_free (word_rx l u)"
  by (induction u) auto

lemma RATING_TEXT_RE_group:
  assumes "re_search H RATING_TEXT_RE html = Some g"
  shows "\<exists>a b. g = [a, 46, b] \<and> 51 \<le> a \<and> a \<le> 53 \<and> ascii_digit b"
proof -
  obtain pre s m where m: "bt (is_word H) [Rx RATING_TEXT_RE] (step_prev None pre) s False [] = Some m"
      "fst m = g"
    using search_sound [OF assms [unfolded re_search_def]] by blast
  define t where "t = seq_rx [Star isspace,
      opt_rx (Alt (Cls (lit 47)) (word_rx lit_i (str ''out of''))), Star isspace, Cls (lit 53)]"
  have R: "RATING_TEXT_RE
      = Cat (Grp (seq_rx [Cls (\<lambda>c. 51 \<le> c \<and> c \<le> 53), Cls (lit 46), Cls ascii_digit])) t"
    by (simp add: RATING_TEXT_RE_def t_def)
  have gf: "grp_free t" by (simp add: t_def opt_rx_def grp_free_word)
  from m(1) obtain a b s' where ab: "51 \<le> a" "a \<le> 53" "ascii_digit b"
    and "bt (is_word H) [Rx t] (Some b) s' False [a, 46, b] = Some m"
    unfolding R by (auto simp: bt_cls lit_def split: list.splits if_splits)
  then have "fst m = [a, 46, b]"
    using gf by (intro bt_keeps_cap [of "is_word H" "[Rx t]" "Some b" s' False]) simp_all
  then show ?thesis using ab m(2) by auto
qed

lemma py_round2_plausible:
  assumes "plausible rating"
  shows "plausible (py_round2 rating)
         \<and> (\<exists>k. 250 \<le> k \<and> k \<le> 500 \<and> py_round2 rating = binary64 k 100)"
proof -
  obtain v where v: "rating = Finite v" "5 / 2 \<le> v" "v \<le> 5"
    using assms by (cases rating) (auto simp: plausible_def)
  define k where "k = nat (round_half_even (v * 100))"
  have "of_int 250 \<le> v * 100" "v * 100 \<le> of_int 500" using v by simp_all
  then have "250 \<le> round_half_even (v * 100)" "round_half_even (v * 100) \<le> 500"
    using rhe_lower [of 250 "v * 100"] rhe_upper [of "v * 100" 500] by blast+
  then have k: "250 \<le> k" "k \<le> 500" by (simp_all add: k_def)
  then have "(5 / 2 :: rat) \<le> of_nat k / of_nat 100" "(of_nat k / of_nat 100 :: rat) \<le> 5"
    by (simp_all add: field_simps)
  then have "float_ge (binary64 k 100) (5 / 2)" "float_le (binary64 k 100) 5"
    using representable_small five_lt_overflow
    by (intro binary64_ge binary64_le; simp)+
  moreover have "py_round2 rating = binary64 k 100" by (simp add: py_round2_def v k_def)
  ultimately show ?thesis using k by (auto simp: plausible_def)
qed

lemma accepted_rating_Some:
  "accepted_rating m = Some v \<longleftrightarrow> (\<exists>g. m = Some g \<and> py_float g = Some v \<and> plausible v)"
  by (auto simp: accepted_rating_def split: option.splits if_splits)

lemma extract_plausible:
  "extract_vivino_rating_from_html H html = Some v \<Longrightarrow> plausible v"
  by (auto simp: extract_vivino_rating_from_html_def accepted_rating_Some split: option.splits)

lemma scan_candidates_rating:
  "scan_candidates H N urls tr = (Some m, tr') \<Longrightarrow>
   \<exists>page rating. extract_vivino_rating_from_html H page = Some rating
      \<and> vivino_rating m = py_round2 rating"
proof (induction urls arbitrary: tr)
  case Nil
  then show ?case by simp
next
  case (Cons vu vus)
  obtain page tr1 where f: "fetch_text N tr vu [] (3 / 5) (6 / 5) = (page, tr1)"
    by (cases "fetch_text N tr vu [] (3 / 5) (6 / 5)") auto
  show ?case
  proof (cases "\<exists>p rating. page = Some p \<and> p \<noteq> [] \<and> extract_vivino_rating_from_html H p = Some rating")
    case True
    then obtain p rating where "page = Some p" "p \<noteq> []"
      "extract_vivino_rating_from_html H p = Some rating"
      by blast
    moreover from this have "m = \<lparr>vivino_url = vu, vivino_rating = py_round2 rating\<rparr>"
      using Cons.prems f by simp
    ultimately show ?thesis by (intro exI [of _ p] exI [of _ rating]) simp
  next
    case False
    then have "scan_candidates H N (vu # vus) tr = scan_candidates H N vus tr1"
      using f by (auto split: option.splits)
    then show ?thesis using Cons by simp
  qed
qed

text \<open>
  Claim C6.  The value \<open>_extract_vivino_rating_from_html\<close> returns is plausible, that
  is, between 2.5 and 5.0.  The structured-data pattern is tried first: when it matches
  and its number is plausible, that number is the result; when it does not match, or its
  number is not a float or not plausible, the result is what the free-text pattern gives.
  Either pattern's match is accepted exactly when \<open>float\<close> reads it and the value is
  plausible.  The free-text pattern captures a digit from 3 to 5, a dot and a digit.
  The match that the scan of the candidates returns carries \<open>round(rating, 2)\<close> of a
  plausible rating, which is again plausible and is the float of \<open>k/100\<close> for some \<open>k\<close>
  from 250 to 500.  A match that \<open>vivino_lookup\<close> returns for a name not in the cache has a
  plausible rating and is the entry cached for the name.
\<close>

theorem rating_plausible_and_rounded:
  "(\<forall>v. extract_vivino_rating_from_html H html = Some v \<longrightarrow> plausible v)
   \<and> (\<forall>g v. re_search H RATING_RE html = Some g \<and> py_float g = Some v \<longrightarrow>
         extract_vivino_rating_from_html H html
           = (if plausible v then Some v else accepted_rating (re_search H RATING_TEXT_RE html)))
   \<and> (re_search H RATING_RE html = None
        \<or> (\<exists>g. re_search H RATING_RE html = Some g \<and> py_float g = None) \<longrightarrow>
         extract_vivino_rating_from_html H html
           = accepted_rating (re_search H RATING_TEXT_RE html))
   \<and> (\<forall>m v. accepted_rating m = Some v \<longleftrightarrow>
         (\<exists>g. m = Some g \<and> py_float g = Some v \<and> plausible v))
   \<and> (\<forall>g. re_search H RATING_TEXT_RE html = Some g \<longrightarrow>
         (\<exists>a b. g = [a, 46, b] \<and> 51 \<le> a \<and> a \<le> 53 \<and> ascii_digit b))
   \<and> (\<forall>N urls tr m tr'. scan_candidates H N urls tr = (Some m, tr') \<longrightarrow>
         (\<exists>rating. plausible rating \<and> vivino_rating m = py_round2 rating
            \<and> plausible (vivino_rating m)
            \<and> (\<exists>k. 250 \<le> k \<and> k \<le> 500 \<and> vivino_rating m = binary64 k 100)))
   \<and> (\<forall>L N w wine_name m w'.
         vivino_cache w (py_strip wine_name) = None
         \<and> vivino_lookup H L N w wine_name = (Some m, w') \<longrightarrow>
         plausible (vivino_rating m) \<and> vivino_cache w' (py_strip wine_name) = Some (Some m))"
proof -
  have 1: "\<forall>v. extract_vivino_rating_from_html H html = Some v \<longrightarrow> plausible v"
    using extract_plausible by blast
  have 2: "\<forall>g v. re_search H RATING_RE html = Some g \<and> py_float g = Some v \<longrightarrow>
         extract_vivino_rating_from_html H html
           = (if plausible v then Some v else accepted_rating (re_search H RATING_TEXT_RE html))"
    by (simp add: extract_vivino_rating_from_html_def accepted_rating_def)
  have 3: "re_search H RATING_RE html = None
        \<or> (\<exists>g. re_search H RATING_RE html = Some g \<and> py_float g = None) \<longrightarrow>
         extract_vivino_rating_from_html H html
           = accepted_rating (re_search H RATING_TEXT_RE html)"
    by (auto simp: extract_vivino_rating_from_html_def accepted_rating_def)
  have 4: "\<forall>m v. accepted_rating m = Some v \<longleftrightarrow>
         (\<exists>g. m = Some g \<and> py_float g = Some v \<and> plausible v)"
    using accepted_rating_Some by blast
  have 5: "\<forall>g. re_search H RATING_TEXT_RE html = Some g \<longrightarrow>
         (\<exists>a b. g = [a, 46, b] \<and> 51 \<le> a \<and> a \<le> 53 \<and> ascii_digit b)"
    using RATING_TEXT_RE_group by blast
  have scan: "\<exists>rating. plausible rating \<and> vivino_rating m = py_round2 rating
            \<and> plausible (vivino_rating m)
            \<and> (\<exists>k. 250 \<le> k \<and> k \<le> 500 \<and> vivino_rating m = binary64 k 100)"
    if sc: "scan_candidates H N urls tr = (Some m, tr')" for N urls tr m tr'
  proof -
    obtain page rating where r: "extract_vivino_rating_from_html H page = Some rating"
      "vivino_rating m = py_round2 rating"
      using scan_candidates_rating [OF sc] by blast
    then have "plausible rating" using extract_plausible by blast
    then show ?thesis using r(2) py_round2_plausible [of rating] by auto
  qed
  then have 6: "\<forall>N urls tr m tr'. scan_candidates H N urls tr = (Some m, tr') \<longrightarrow>
         (\<exists>rating. plausible rating \<and> vivino_rating m = py_round2 rating
            \<and> plausible (vivino_rating m)
            \<and> (\<exists>k. 250 \<le> k \<and> k \<le> 500 \<and> vivino_rating m = binary64 k 100))"
    by blast
  have 7: "\<forall>L N w wine_name m w'.
         vivino_cache w (py_strip wine_name) = None
         \<and> vivino_lookup H L N w wine_name = (Some m, w') \<longrightarrow>
         plausible (vivino_rating m) \<and> vivino_cache w' (py_strip wine_name) = Some (Some m)"
  proof (intro allI impI)
    fix L N w wine_name m w'
    assume a: "vivino_cache w (py_strip wine_name) = None
         \<and> vivino_lookup H L N w wine_name = (Some m, w')"
    then obtain urls tr tr' where "scan_candidates H N urls tr = (Some m, tr')"
      and c: "vivino_cache w' (py_strip wine_name) = Some (Some m)"
      by (auto simp: vivino_lookup_def Let_def split: prod.splits)
    then show "plausible (vivino_rating m) \<and> vivino_cache w' (py_strip wine_name) = Some (Some m)"
      using scan by blast
  qed
  show ?thesis
    by (rule conjI [OF 1 conjI [OF 2 conjI [OF 3 conjI [OF 4 conjI [OF 5 conjI [OF 6 7]]]]]])
qed

lemma ex_search_12: "re_search H RATING_RE page_12 = Some (str ''1.2'')"
  by (simp add: page_12_def RATING_RE_def rx_eval)

lemma ex_search_12_text: "re_search H RATING_TEXT_RE page_12 = None"
  by (simp add: page_12_def RATING_TEXT_RE_def rx_eval)

lemma ex_search_43: "re_search H RATING_RE page_43 = Some (str ''4.3'')"
  by (simp add: page_43_def RATING_RE_def rx_eval)

lemma ex_search_45: "re_search H RATING_RE page_45 = None"
  by (simp add: page_45_def RATING_RE_def rx_eval)

lemma ex_search_45_text: "re_search H RATING_TEXT_RE page_45 = Some (str ''4.5'')"
  by (simp add: page_45_def RATING_TEXT_RE_def rx_eval)

lemma ex_float_12: "py_float (str ''1.2'') = Some (Finite (5404319552844595 / 2 ^ 52))"
  by code_simp

lemma ex_float_43: "py_float (str ''4.3'') = Some (Finite (4841369599423283 / 2 ^ 50))"
  by code_simp

lemma ex_float_45: "py_float (str ''4.5'') = Some (Finite (9 / 2))"
  by code_simp

lemma ex_round_43: "py_round2 (Finite (4841369599423283 / 2 ^ 50)) = Finite (4841369599423283 / 2 ^ 50)"
  by code_simp

lemma ex_plausible: "\<not> plausible (Finite (5404319552844595 / 2 ^ 52))"
   "plausible (Finite (4841369599423283 / 2 ^ 50))" "plausible (Finite (9 / 2))"
  by (simp_all add: plausible_def)

lemma ex_strip_Yarden_plain: "py_strip (str ''Yarden'') = str ''Yarden''"
  by (simp add: py_strip_def isspace_def str_def)

lemma ex_fetch_serves:
  "page \<noteq> [] \<Longrightarrow>
   fetch_text (serves page) tr url ps a b = (Some page, tr @ [Pause a b, Request url ps])"
  by (simp add: fetch_text_def serves_def Let_def)

lemma ex_lookup_serves:
  assumes "page \<noteq> []"
  shows "vivino_lookup H one_link (serves page) empty_world (str ''Yarden'')
    = (fst (scan_candidates H (serves page) [str ''https://www.vivino.com/wines/1'']
              [Pause (2 / 5) 1, Request BING_SEARCH_URL
                 [(''q'', str ''site:vivino.com '' @ [34] @ str ''Yarden'' @ [34]),
                  (''setlang'', str ''en'')]]),
       \<lparr>vivino_cache = [str ''Yarden'' \<mapsto>
            fst (scan_candidates H (serves page) [str ''https://www.vivino.com/wines/1'']
              [Pause (2 / 5) 1, Request BING_SEARCH_URL
                 [(''q'', str ''site:vivino.com '' @ [34] @ str ''Yarden'' @ [34]),
                  (''setlang'', str ''en'')]])],
        trace = snd (scan_candidates H (serves page) [str ''https://www.vivino.com/wines/1'']
              [Pause (2 / 5) 1, Request BING_SEARCH_URL
                 [(''q'', str ''site:vivino.com '' @ [34] @ str ''Yarden'' @ [34]),
                  (''setlang'', str ''en'')]])\<rparr>)"
  unfolding vivino_lookup_def Let_def ex_fetch_serves [OF assms] ex_strip_Yarden_plain
  using assms
  by (simp add: one_link_def empty_world_def split: prod.splits del: scan_candidates.simps)

text \<open>
  The average 1.2 is discarded, and no other pattern matches its page: no rating, and
  a lookup whose candidate serves this page returns nothing and caches the negative
  marker.  The average 4.3 is accepted and is its own rounding to two places; a lookup
  whose candidate serves that page returns and caches a match rated 4.3.  The text
  \<open>Rated 4.5 out of 5\<close> gives 4.5 by the second pattern.
\<close>

theorem rating_plausible_and_rounded_witness:
  "\<forall>H. extract_vivino_rating_from_html H page_12 = None
      \<and> extract_vivino_rating_from_html H page_43 = Some (Finite (4841369599423283 / 2 ^ 50))
      \<and> py_round2 (Finite (4841369599423283 / 2 ^ 50)) = Finite (4841369599423283 / 2 ^ 50)
      \<and> extract_vivino_rating_from_html H page_45 = Some (Finite (9 / 2))
      \<and> (\<exists>w'. vivino_lookup H one_link (serves page_12) empty_world (str ''Yarden'') = (None, w')
             \<and> vivino_cache w' (str ''Yarden'') = Some None)
      \<and> (\<exists>w'. vivino_lookup H one_link (serves page_43) empty_world (str ''Yarden'')
               = (Some \<lparr>vivino_url = str ''https://www.vivino.com/wines/1'',
                         vivino_rating = Finite (4841369599423283 / 2 ^ 50)\<rparr>, w')
             \<and> vivino_cache w' (str ''Yarden'')
                 = Some (Some \<lparr>vivino_url = str ''https://www.vivino.com/wines/1'',
                                vivino_rating = Finite (4841369599423283 / 2 ^ 50)\<rparr>)
             \<and> plausible (Finite (4841369599423283 / 2 ^ 50)))"
proof -
  have e12: "extract_vivino_rating_from_html H page_12 = None" for H
  proof -
    have "extract_vivino_rating_from_html H page_12
        = (if plausible (Finite (5404319552844595 / 2 ^ 52))
           then Some (Finite (5404319552844595 / 2 ^ 52))
           else accepted_rating (re_search H RATING_TEXT_RE page_12))"
      by (rule rating_plausible_and_rounded [THEN conjunct2, THEN conjunct1, THEN spec,
            THEN spec, THEN mp, OF conjI, OF ex_search_12 ex_float_12])
    then show ?thesis
      by (simp only: ex_plausible if_False ex_search_12_text accepted_rating_def option.case)
  qed
  have e43: "extract_vivino_rating_from_html H page_43 = Some (Finite (4841369599423283 / 2 ^ 50))"
    for H
  proof -
    have "extract_vivino_rating_from_html H page_43
        = (if plausible (Finite (4841369599423283 / 2 ^ 50))
           then Some (Finite (4841369599423283 / 2 ^ 50))
           else accepted_rating (re_search H RATING_TEXT_RE page_43))"
      by (rule rating_plausible_and_rounded [THEN conjunct2, THEN conjunct1, THEN spec,
            THEN spec, THEN mp, OF conjI, OF ex_search_43 ex_float_43])
    then show ?thesis by (simp only: ex_plausible if_True)
  qed
  have e45: "extract_vivino_rating_from_html H page_45 = Some (Finite (9 / 2))" for H
  proof -
    have "extract_vivino_rating_from_html H page_45
        = accepted_rating (re_search H RATING_TEXT_RE page_45)"
      by (rule rating_plausible_and_rounded [THEN conjunct2, THEN conjunct2, THEN conjunct1,
            THEN mp, OF disjI1, OF ex_search_45])
    then show ?thesis
      by (simp only: ex_search_45_text accepted_rating_def ex_float_45 ex_plausible option.case
          if_True)
  qed
  have n12: "page_12 \<noteq> []" and n43: "page_43 \<noteq> []"
    by (simp_all add: page_12_def page_43_def)
  have s12: "fst (scan_candidates H (serves page_12) [str ''https://www.vivino.com/wines/1''] tr)
          = None" for H tr
    by (simp add: ex_fetch_serves [OF n12] e12 n12)
  have s43: "fst (scan_candidates H (serves page_43) [str ''https://www.vivino.com/wines/1''] tr)
          = Some \<lparr>vivino_url = str ''https://www.vivino.com/wines/1'',
                    vivino_rating = Finite (4841369599423283 / 2 ^ 50)\<rparr>" for H tr
    by (simp only: scan_candidates.simps ex_fetch_serves [OF n43] e43 n43 ex_round_43
        prod.case option.case if_False fst_conv)
  have l12: "\<exists>w'. vivino_lookup H one_link (serves page_12) empty_world (str ''Yarden'') = (None, w')
             \<and> vivino_cache w' (str ''Yarden'') = Some None" for H
    unfolding ex_lookup_serves [OF n12] s12 by simp
  have l43: "\<exists>w'. vivino_lookup H one_link (serves page_43) empty_world (str ''Yarden'')
               = (Some \<lparr>vivino_url = str ''https://www.vivino.com/wines/1'',
                         vivino_rating = Finite (4841369599423283 / 2 ^ 50)\<rparr>, w')
             \<and> vivino_cache w' (str ''Yarden'')
                 = Some (Some \<lparr>vivino_url = str ''https://www.vivino.com/wines/1'',
                                vivino_rating = Finite (4841369599423283 / 2 ^ 50)\<rparr>)
             \<and> plausible (Finite (4841369599423283 / 2 ^ 50))" for H
  proof -
    obtain w' where w: "vivino_lookup H one_link (serves page_43) empty_world (str ''Yarden'')
               = (Some \<lparr>vivino_url = str ''https://www.vivino.com/wines/1'',
                         vivino_rating = Finite (4841369599423283 / 2 ^ 50)\<rparr>, w')"
      unfolding ex_lookup_serves [OF n43] s43 by simp
    have "vivino_cache empty_world (py_strip (str ''Yarden'')) = None
         \<and> vivino_lookup H one_link (serves page_43) empty_world (str ''Yarden'')
               = (Some \<lparr>vivino_url = str ''https://www.vivino.com/wines/1'',
                         vivino_rating = Finite (4841369599423283 / 2 ^ 50)\<rparr>, w')"
      using w by (simp add: empty_world_def)
    then have "plausible (vivino_rating \<lparr>vivino_url = str ''https://www.vivino.com/wines/1'',
                         vivino_rating = Finite (4841369599423283 / 2 ^ 50)\<rparr>)
         \<and> vivino_cache w' (py_strip (str ''Yarden''))
             = Some (Some \<lparr>vivino_url = str ''https://www.vivino.com/wines/1'',
                         vivino_rating = Finite (4841369599423283 / 2 ^ 50)\<rparr>)"
      by (rule rating_plausible_and_rounded [THEN conjunct2, THEN conjunct2, THEN conjunct2,
            THEN conjunct2, THEN conjunct2, THEN conjunct2, THEN spec, THEN spec, THEN spec,
            THEN spec, THEN spec, THEN spec, THEN mp])
    then show ?thesis using w by (simp only: ex_strip_Yarden_plain match_result.simps) blast
  qed
  show ?thesis using e12 e43 e45 l12 l43 ex_round_43 by blast
qed

subsection \<open>The cache\<close>

lemma lookup_hit:
  "vivino_cache w (py_strip wine_name) = Some cached \<Longrightarrow> vivino_lookup H L N w wine_name = (cached, w)"
  by (simp add: vivino_lookup_def)

lemma lookup_keeps:
  "vivino_cache w k = Some v \<Longrightarrow> vivino_cache (snd (vivino_lookup H L N w wine_name)) k = Some v"
  by (auto simp: vivino_lookup_def Let_def split: option.splits prod.splits)

lemma lookup_all_keeps:
  "vivino_cache w k = Some v \<Longrightarrow> vivino_cache (lookup_all H L N w names) k = Some v"
  by (induction names arbitrary: w) (simp_all add: lookup_keeps)

lemma lookup_all_cached:
  "\<forall>n \<in> set names. vivino_cache w (py_strip n) \<noteq> None \<Longrightarrow> lookup_all H L N w names = w"
  by (induction names) (auto simp: lookup_hit)

text \<open>
  Claim C5.  A lookup of a name whose stripped form has a cache entry, a match or the
  negative marker, returns the entry and leaves the world as it was: the trace gets no
  pause and no request.  Every lookup leaves an entry for its name that is what it
  returned, so the same lookup again is answered from the cache and changes nothing.  No
  lookup, and no sequence of lookups, removes or changes an entry, and a sequence of
  lookups of names that all have entries leaves the world as it was.  This holds for
  every cache, so also for the one a later run reads back from the file.
\<close>

theorem cache_hit_no_network:
  "(\<forall>cached. vivino_cache w (py_strip wine_name) = Some cached \<longrightarrow>
       vivino_lookup H L N w wine_name = (cached, w))
   \<and> (\<forall>res w'. vivino_lookup H L N w wine_name = (res, w') \<longrightarrow>
         vivino_cache w' (py_strip wine_name) = Some res
         \<and> vivino_lookup H L N w' wine_name = (res, w')
         \<and> (\<forall>k v. vivino_cache w k = Some v \<longrightarrow> vivino_cache w' k = Some v))
   \<and> (\<forall>names k v. vivino_cache w k = Some v \<longrightarrow>
         vivino_cache (lookup_all H L N w names) k = Some v)
   \<and> (\<forall>names. (\<forall>n \<in> set names. vivino_cache w (py_strip n) \<noteq> None) \<longrightarrow>
         lookup_all H L N w names = w)"
proof -
  have 1: "\<forall>cached. vivino_cache w (py_strip wine_name) = Some cached \<longrightarrow>
       vivino_lookup H L N w wine_name = (cached, w)"
    by (simp add: lookup_hit)
  have 2: "\<forall>res w'. vivino_lookup H L N w wine_name = (res, w') \<longrightarrow>
         vivino_cache w' (py_strip wine_name) = Some res
         \<and> vivino_lookup H L N w' wine_name = (res, w')
         \<and> (\<forall>k v. vivino_cache w k = Some v \<longrightarrow> vivino_cache w' k = Some v)"
  proof (intro allI impI)
    fix res w'
    assume a: "vivino_lookup H L N w wine_name = (res, w')"
    have c: "vivino_cache w' (py_strip wine_name) = Some res"
      using a by (auto simp: vivino_lookup_def Let_def split: option.splits prod.splits)
    then have "vivino_lookup H L N w' wine_name = (res, w')"
      by (rule lookup_hit)
    moreover have "\<forall>k v. vivino_cache w k = Some v \<longrightarrow> vivino_cache w' k = Some v"
      using a lookup_keeps [of w _ _ H L N wine_name] by simp
    ultimately show "vivino_cache w' (py_strip wine_name) = Some res
         \<and> vivino_lookup H L N w' wine_name = (res, w')
         \<and> (\<forall>k v. vivino_cache w k = Some v \<longrightarrow> vivino_cache w' k = Some v)"
      using c by blast
  qed
  have 3: "\<forall>names k v. vivino_cache w k = Some v \<longrightarrow>
         vivino_cache (lookup_all H L N w names) k = Some v"
    by (simp add: lookup_all_keeps)
  have 4: "\<forall>names. (\<forall>n \<in> set names. vivino_cache w (py_strip n) \<noteq> None) \<longrightarrow>
         lookup_all H L N w names = w"
    using lookup_all_cached by blast
  show ?thesis by (rule conjI [OF 1 conjI [OF 2 conjI [OF 3 4]]])
qed

lemma ex_strip_Yarden: "py_strip (str '' Yarden '') = str ''Yarden''"
  by (simp add: py_strip_def isspace_def str_def)

lemma ex_strip_Nope: "py_strip (str ''Nope'') = str ''Nope''"
  by (simp add: py_strip_def isspace_def str_def)

text \<open>
  With a match cached for \<open>Yarden\<close> and the negative marker for \<open>Nope\<close>, both lookups
  return the cached value on any network, and the world is unchanged, also after the
  three lookups in a row.  Lookups of other names keep the marker of \<open>Nope\<close>, and the
  lookup of \<open>Merlot\<close> a second time returns what the first returned and the world the
  first left.
\<close>

theorem cache_hit_no_network_witness:
  "\<forall>H L N. vivino_lookup H L N cached_world (str '' Yarden '')
        = (Some \<lparr>vivino_url = str ''https://www.vivino.com/wines/1'',
                  vivino_rating = Finite (4841369599423283 / 2 ^ 50)\<rparr>, cached_world)
      \<and> vivino_lookup H L N cached_world (str ''Nope'') = (None, cached_world)
      \<and> lookup_all H L N cached_world [str ''Nope'', str '' Yarden '', str ''Nope''] = cached_world
      \<and> vivino_cache (lookup_all H L N cached_world [str ''Merlot'', str ''Syrah'']) (str ''Nope'')
          = Some None
      \<and> vivino_lookup H L N (snd (vivino_lookup H L N cached_world (str ''Merlot''))) (str ''Merlot'')
          = vivino_lookup H L N cached_world (str ''Merlot'')"
proof (intro allI conjI)
  fix H :: host and L :: link_reader and N :: network
  show "vivino_lookup H L N cached_world (str '' Yarden '')
        = (Some \<lparr>vivino_url = str ''https://www.vivino.com/wines/1'',
                  vivino_rating = Finite (4841369599423283 / 2 ^ 50)\<rparr>, cached_world)"
    by (rule cache_hit_no_network [THEN conjunct1, rule_format])
       (simp add: ex_strip_Yarden cached_world_def)
  show "vivino_lookup H L N cached_world (str ''Nope'') = (None, cached_world)"
    by (rule cache_hit_no_network [THEN conjunct1, rule_format])
       (simp add: ex_strip_Nope cached_world_def)
  show "lookup_all H L N cached_world [str ''Nope'', str '' Yarden '', str ''Nope''] = cached_world"
    by (rule cache_hit_no_network [THEN conjunct2, THEN conjunct2, THEN conjunct2, rule_format])
       (auto simp: ex_strip_Nope ex_strip_Yarden cached_world_def)
  show "vivino_cache (lookup_all H L N cached_world [str ''Merlot'', str ''Syrah'']) (str ''Nope'')
          = Some None"
    by (rule cache_hit_no_network [THEN conjunct2, THEN conjunct2, THEN conjunct1, rule_format])
       (simp add: cached_world_def)
  have "vivino_lookup H L N cached_world (str ''Merlot'')
      = (fst (vivino_lookup H L N cached_world (str ''Merlot'')),
         snd (vivino_lookup H L N cached_world (str ''Merlot'')))"
    by simp
  then have "vivino_lookup H L N (snd (vivino_lookup H L N cached_world (str ''Merlot'')))
        (str ''Merlot'')
      = (fst (vivino_lookup H L N cached_world (str ''Merlot'')),
         snd (vivino_lookup H L N cached_world (str ''Merlot'')))"
    by (rule cache_hit_no_network [THEN conjunct2, THEN conjunct1, THEN spec, THEN spec, THEN mp,
          THEN conjunct2, THEN conjunct1])
  then show "vivino_lookup H L N (snd (vivino_lookup H L N cached_world (str ''Merlot''))) (str ''Merlot'')
          = vivino_lookup H L N cached_world (str ''Merlot'')"
    by simp
qed

subsection \<open>Backoff\<close>

lemma float_17: "binary64 17 10 = Finite (7656119366529843 / 2 ^ 52)"
proof -
  have "\<lfloor>(38280596832649216::rat) / 5\<rfloor> = 7656119366529843"
    by (rule floor_unique) simp_all
  then show ?thesis
    by (simp add: binary64_def overflow_bound_def ilog2_def pow2_def round_half_even_def Let_def)
qed

lemma float_03: "binary64 3 10 = Finite (5404319552844595 / 2 ^ 54)"
proof -
  have "\<lfloor>(27021597764222976::rat) / 5\<rfloor> = 5404319552844595"
    by (rule floor_unique) simp_all
  then show ?thesis
    by (simp add: binary64_def overflow_bound_def ilog2_def pow2_def round_half_even_def Let_def)
qed

lemma representable_consts:
  "representable 0" "representable 2" "representable (7656119366529843 / 2 ^ 52)"
  "representable (5404319552844595 / 2 ^ 54)"
  unfolding representable_def
  by (rule exI [of _ 0], rule exI [of _ 0], simp add: pow2_def,
      rule exI [of _ 2], rule exI [of _ 0], simp add: pow2_def,
      rule exI [of _ 7656119366529843], rule exI [of _ "- 52"], simp add: pow2_def,
      rule exI [of _ 5404319552844595], rule exI [of _ "- 54"], simp add: pow2_def)

lemma float_bounds_Finite:
  "float_ge x a \<Longrightarrow> float_le x b \<Longrightarrow> \<exists>v. x = Finite v \<and> a \<le> v \<and> v \<le> b"
  by (cases x) auto

lemma jitter_factor_bounds:
  "\<exists>f. jitter_factor N t = Finite f \<and> 7656119366529843 / 2 ^ 52 \<le> f \<and> f \<le> 2"
proof -
  define r :: rat where "r = of_nat (random_bits N t mod 2 ^ 53) / 2 ^ 53"
  have "random_bits N t mod 2 ^ 53 < 2 ^ 53" by simp
  then have "(of_nat (random_bits N t mod 2 ^ 53) :: rat) < 2 ^ 53"
    by (metis of_nat_less_iff of_nat_numeral of_nat_power)
  then have r: "0 \<le> r" "r \<le> 1" by (simp_all add: r_def)
  define c3 :: rat where "c3 = 5404319552844595 / 2 ^ 54"
  define c17 :: rat where "c17 = 7656119366529843 / 2 ^ 52"
  have c3: "0 \<le> c3" "representable c3" "c3 < overflow_bound"
    using representable_consts(4) bound_lt_overflow by (simp_all add: c3_def)
  have "0 \<le> r * c3" "r * c3 \<le> c3"
    using r c3(1) by (simp_all add: mult_left_le_one_le)
  then have "float_ge (float_of_rat (r * c3)) 0" "float_le (float_of_rat (r * c3)) c3"
    using c3 representable_consts(1) by (auto intro: float_of_rat_ge float_of_rat_le)
  then obtain p where p: "float_of_rat (r * c3) = Finite p" "0 \<le> p" "p \<le> c3"
    using float_bounds_Finite by blast
  have "c17 \<le> c17 + p" "c17 + p \<le> 2" "0 \<le> c17 + p"
    using p by (simp_all add: c17_def c3_def)
  then have "float_ge (float_of_rat (c17 + p)) c17" "float_le (float_of_rat (c17 + p)) 2"
    using representable_consts bound_lt_overflow
    by (auto intro!: float_of_rat_ge float_of_rat_le simp: c17_def)
  then obtain f where "float_of_rat (c17 + p) = Finite f" "c17 \<le> f" "f \<le> 2"
    using float_bounds_Finite by blast
  moreover have "jitter_factor N t = float_of_rat (c17 + p)"
    using p(1) by (simp add: jitter_factor_def random_random_def float_17 float_03 r_def c3_def c17_def)
  ultimately show ?thesis by (auto simp: c17_def)
qed

lemma delay_growth:
  assumes "1 \<le> v" "v \<le> 500"
  shows "\<exists>v'. fmul (Finite v) (jitter_factor N t) = Finite v' \<and> grows v v'"
proof -
  obtain f where f: "jitter_factor N t = Finite f" "7656119366529843 / 2 ^ 52 \<le> f" "f \<le> 2"
    using jitter_factor_bounds by blast
  have "1699 / 1000 \<le> f" using f(2) by simp
  then have "v * (1699 / 1000) \<le> v * f" using assms(1) by (intro mult_left_mono) simp_all
  then have lo: "1699 / 1000 * v \<le> v * f" by (simp add: mult.commute)
  have "v * f \<le> v * 2" using f(3) assms(1) by (intro mult_left_mono) simp_all
  then have hi: "v * f \<le> 2 * v" by (simp add: mult.commute)
  have "1 \<le> v * f" "v * f \<le> 1000" using lo hi assms by linarith+
  then obtain y where y: "float_of_rat (v * f) = Finite y" "v * f * (1 - 1 / 2 ^ 53) \<le> y"
      "y \<le> v * f * (1 + 1 / 2 ^ 53)"
    using float_of_rat_rel by blast
  define t where "t = v * f"
  have t: "1699 / 1000 * v \<le> t" "t \<le> 2 * v" "0 \<le> t"
    using lo hi assms(1) by (simp_all add: t_def)
  have "t * (999 / 1000) \<le> t * (1 - 1 / 2 ^ 53)" "t * (1 + 1 / 2 ^ 53) \<le> t * (1001 / 1000)"
    using t(3) by (intro mult_left_mono; simp)+
  then have "t * (999 / 1000) \<le> y" "y \<le> t * (1001 / 1000)"
    using y(2,3) unfolding t_def [symmetric] by linarith+
  then have "169 / 100 * v \<le> y" "y \<le> 201 / 100 * v"
    using t assms(1) by linarith+
  then show ?thesis using y(1) f(1) by (simp add: grows_def)
qed

lemma backoff_stop: "max_tries < attempt \<Longrightarrow> backoff_loop N ps attempt delay tr = (None, tr)"
  by (subst backoff_loop.simps) simp

lemma backoff_429:
  assumes "rate_limited N" "attempt \<le> max_tries"
    and "attempt' = attempt + 1"
    and "tr' = tr @ [Sleep (if 1 < attempt then delay else Finite 0),
                     Request VIVINO_FALLBACK_SEARCH ps]"
    and "delay' = fmul delay (jitter_factor N tr')"
  shows "backoff_loop N ps attempt delay tr = backoff_loop N ps attempt' delay' tr'"
proof -
  obtain b where "respond N tr' = Reply 429 b"
    using assms(1) [unfolded rate_limited_def, rule_format,
        of "tr @ [Sleep (if 1 < attempt then delay else Finite 0)]" ps] assms(4)
    by auto
  then show ?thesis
    using assms(2-) by (subst backoff_loop.simps) (simp add: Let_def del: backoff_loop.simps)
qed

lemma backoff_requests_aux:
  "Suc max_tries - attempt = n \<Longrightarrow>
   requests (snd (backoff_loop N ps attempt delay tr)) \<le> requests tr + n"
proof (induction n arbitrary: attempt delay tr)
  case 0
  then show ?case by (simp add: backoff_stop)
next
  case (Suc n)
  define tr' where "tr' = tr @ [Sleep (if 1 < attempt then delay else Finite 0),
                         Request VIVINO_FALLBACK_SEARCH ps]"
  have r: "requests tr' = requests tr + 1" by (simp add: tr'_def requests_def)
  have le: "\<not> max_tries < attempt" using Suc.prems by simp
  have ih: "requests (snd (backoff_loop N ps (attempt + 1) d tr')) \<le> requests tr + Suc n" for d
    using Suc.IH [of "attempt + 1" d tr'] Suc.prems r by simp
  have "backoff_loop N ps attempt delay tr =
     (case respond N tr' of
        Reply status body \<Rightarrow>
          if status = 429
          then backoff_loop N ps (attempt + 1) (fmul delay (jitter_factor N tr')) tr'
          else if 400 \<le> status
          then backoff_loop N ps (attempt + 1) (fmul delay (binary64 14 10)) tr'
          else (case body of
                  Some text \<Rightarrow> (Some text, tr')
                | None \<Rightarrow>
                    backoff_loop N ps (attempt + 1) (fmul delay (binary64 14 10)) tr')
      | Failure \<Rightarrow> backoff_loop N ps (attempt + 1) (fmul delay (binary64 14 10)) tr')"
    using le unfolding tr'_def by (subst backoff_loop.simps) (simp add: Let_def del: backoff_loop.simps)
  then show ?case using ih r by (simp split: reply.splits option.splits del: backoff_loop.simps)
qed

lemma backoff_requests:
  "requests (snd (fetch_vivino_search_with_backoff N ps tr)) \<le> requests tr + max_tries"
  unfolding fetch_vivino_search_with_backoff_def
  using backoff_requests_aux [of 1 max_tries N ps "Finite 2" tr] by simp

lemma grows_bounds: "grows a b \<Longrightarrow> 1 \<le> a \<Longrightarrow> a \<le> u \<Longrightarrow> 1 \<le> b \<and> b \<le> 201 / 100 * u"
  unfolding grows_def by linarith

lemma backoff_all_429:
  assumes "rate_limited N"
  shows "\<exists>d1 d2 d3 d4 d5.
     fetch_vivino_search_with_backoff N ps tr =
       (None, tr @ [Sleep (Finite 0), Request VIVINO_FALLBACK_SEARCH ps,
                    Sleep (Finite d1), Request VIVINO_FALLBACK_SEARCH ps,
                    Sleep (Finite d2), Request VIVINO_FALLBACK_SEARCH ps,
                    Sleep (Finite d3), Request VIVINO_FALLBACK_SEARCH ps,
                    Sleep (Finite d4), Request VIVINO_FALLBACK_SEARCH ps,
                    Sleep (Finite d5), Request VIVINO_FALLBACK_SEARCH ps])
     \<and> grows 2 d1 \<and> grows d1 d2 \<and> grows d2 d3 \<and> grows d3 d4 \<and> grows d4 d5"
proof -
  define t1 where "t1 = tr @ [Sleep (Finite 0), Request VIVINO_FALLBACK_SEARCH ps]"
  obtain d1 where d1: "fmul (Finite 2) (jitter_factor N t1) = Finite d1" "grows 2 d1"
    using delay_growth [of 2 N t1] by auto
  have b1: "1 \<le> d1" "d1 \<le> 5" using grows_bounds [OF d1(2), of 2] by simp_all
  define t2 where "t2 = t1 @ [Sleep (Finite d1), Request VIVINO_FALLBACK_SEARCH ps]"
  obtain d2 where d2: "fmul (Finite d1) (jitter_factor N t2) = Finite d2" "grows d1 d2"
    using delay_growth [of d1 N t2] b1 by auto
  have b2: "1 \<le> d2" "d2 \<le> 11" using grows_bounds [OF d2(2) b1] by simp_all
  define t3 where "t3 = t2 @ [Sleep (Finite d2), Request VIVINO_FALLBACK_SEARCH ps]"
  obtain d3 where d3: "fmul (Finite d2) (jitter_factor N t3) = Finite d3" "grows d2 d3"
    using delay_growth [of d2 N t3] b2 by auto
  have b3: "1 \<le> d3" "d3 \<le> 23" using grows_bounds [OF d3(2) b2] by simp_all
  define t4 where "t4 = t3 @ [Sleep (Finite d3), Request VIVINO_FALLBACK_SEARCH ps]"
  obtain d4 where d4: "fmul (Finite d3) (jitter_factor N t4) = Finite d4" "grows d3 d4"
    using delay_growth [of d3 N t4] b3 by auto
  have b4: "1 \<le> d4" "d4 \<le> 47" using grows_bounds [OF d4(2) b3] by simp_all
  define t5 where "t5 = t4 @ [Sleep (Finite d4), Request VIVINO_FALLBACK_SEARCH ps]"
  obtain d5 where d5: "fmul (Finite d4) (jitter_factor N t5) = Finite d5" "grows d4 d5"
    using delay_growth [of d4 N t5] b4 by auto
  define t6 where "t6 = t5 @ [Sleep (Finite d5), Request VIVINO_FALLBACK_SEARCH ps]"
  have "backoff_loop N ps 1 (Finite 2) tr = backoff_loop N ps 2 (Finite d1) t1"
    by (rule backoff_429 [OF assms]) (simp_all add: max_tries_def t1_def [symmetric] d1(1))
  also have "\<dots> = backoff_loop N ps 3 (Finite d2) t2"
    by (rule backoff_429 [OF assms]) (simp_all add: max_tries_def t2_def [symmetric] d2(1))
  also have "\<dots> = backoff_loop N ps 4 (Finite d3) t3"
    by (rule backoff_429 [OF assms]) (simp_all add: max_tries_def t3_def [symmetric] d3(1))
  also have "\<dots> = backoff_loop N ps 5 (Finite d4) t4"
    by (rule backoff_429 [OF assms]) (simp_all add: max_tries_def t4_def [symmetric] d4(1))
  also have "\<dots> = backoff_loop N ps 6 (Finite d5) t5"
    by (rule backoff_429 [OF assms]) (simp_all add: max_tries_def t5_def [symmetric] d5(1))
  also have "\<dots> = backoff_loop N ps 7 (fmul (Finite d5) (jitter_factor N t6)) t6"
    by (rule backoff_429 [OF assms]) (simp_all add: max_tries_def t6_def [symmetric])
  also have "\<dots> = (None, t6)" by (rule backoff_stop) (simp add: max_tries_def)
  finally have "fetch_vivino_search_with_backoff N ps tr = (None, t6)"
    by (simp add: fetch_vivino_search_with_backoff_def del: backoff_loop.simps)
  then show ?thesis
    using d1(2) d2(2) d3(2) d4(2) d5(2)
    unfolding t6_def t5_def t4_def t3_def t2_def t1_def
    by (intro exI [of _ d1] exI [of _ d2] exI [of _ d3] exI [of _ d4] exI [of _ d5]) simp
qed

lemma requests_fetch_text: "requests (snd (fetch_text N tr url ps a b)) = requests tr + 1"
  by (simp add: fetch_text_def Let_def requests_def)

lemma backoff_429_result:
  assumes "rate_limited N"
  shows "\<exists>tr'. fetch_vivino_search_with_backoff N ps tr = (None, tr')
           \<and> requests tr' = requests tr + 6"
  using backoff_all_429 [OF assms, of ps tr] by (auto simp: requests_def)

lemma lookup_rate_limited:
  assumes "rate_limited N" "\<forall>h. bing_links L h = []" "vivino_cache w (py_strip wine_name) = None"
  shows "\<exists>w'. vivino_lookup H L N w wine_name = (None, w')
            \<and> vivino_cache w' (py_strip wine_name) = Some None
            \<and> requests (trace w') = requests (trace w) + 7"
proof -
  define ps where "ps = [(''q'', str ''site:vivino.com '' @ [34] @ he_to_en_query L wine_name @ [34]),
                        (''setlang'', str ''en'')]"
  obtain html tr1 where f: "fetch_text N (trace w) BING_SEARCH_URL ps (2 / 5) 1 = (html, tr1)"
    by (cases "fetch_text N (trace w) BING_SEARCH_URL ps (2 / 5) 1") auto
  have r1: "requests tr1 = requests (trace w) + 1"
    using requests_fetch_text [of N "trace w" BING_SEARCH_URL ps "2 / 5" 1] f by simp
  have u: "(case html of Some h \<Rightarrow> if h \<noteq> [] then bing_links L h else [] | None \<Rightarrow> []) = []"
    using assms(2) by (simp split: option.splits)
  obtain tr2 where b: "fetch_vivino_search_with_backoff N [(''q'', he_to_en_query L wine_name)] tr1
      = (None, tr2)" and r: "requests tr2 = requests tr1 + 6"
    using backoff_429_result [OF assms(1)] by blast
  have "requests tr2 = requests (trace w) + 7" using r r1 by simp
  moreover have "vivino_lookup H L N w wine_name
      = (None, w\<lparr>vivino_cache := (vivino_cache w)(py_strip wine_name \<mapsto> None), trace := tr2\<rparr>)"
    unfolding vivino_lookup_def Let_def ps_def [symmetric] f
    using assms(3) b u by simp
  ultimately show ?thesis by simp
qed

text \<open>
  Claim C7.  The fallback fetch issues at most six requests, whatever the network
  answers.  The factor \<open>1.7 + random.random() * 0.3\<close> is a float between the float 1.7 and
  2.0.  When every fallback request is answered with status 429, the fetch issues six
  requests, sleeps nothing before the first and \<open>d1\<close>, ..., \<open>d5\<close> before the others, where
  \<open>d1\<close> is the initial delay 2 grown once and each next delay is the one before grown once,
  and returns \<open>None\<close>.  Then \<open>vivino_lookup\<close>, for a name not in the cache for which the search
  engine gave no link, has no candidates: it returns \<open>None\<close>, caches the negative marker,
  and has issued seven requests, one to the search engine and six to the fallback.
\<close>

theorem backoff_rate_limited:
  "requests (snd (fetch_vivino_search_with_backoff N ps tr)) \<le> requests tr + 6
   \<and> (\<forall>t. \<exists>f. jitter_factor N t = Finite f \<and> 7656119366529843 / 2 ^ 52 \<le> f \<and> f \<le> 2)
   \<and> (rate_limited N \<longrightarrow>
        (\<exists>d1 d2 d3 d4 d5.
           fetch_vivino_search_with_backoff N ps tr =
             (None, tr @ [Sleep (Finite 0), Request VIVINO_FALLBACK_SEARCH ps,
                          Sleep (Finite d1), Request VIVINO_FALLBACK_SEARCH ps,
                          Sleep (Finite d2), Request VIVINO_FALLBACK_SEARCH ps,
                          Sleep (Finite d3), Request VIVINO_FALLBACK_SEARCH ps,
                          Sleep (Finite d4), Request VIVINO_FALLBACK_SEARCH ps,
                          Sleep (Finite d5), Request VIVINO_FALLBACK_SEARCH ps])
           \<and> grows 2 d1 \<and> grows d1 d2 \<and> grows d2 d3 \<and> grows d3 d4 \<and> grows d4 d5))
   \<and> (\<forall>H L w wine_name.
         rate_limited N \<and> (\<forall>h. bing_links L h = [])
         \<and> vivino_cache w (py_strip wine_name) = None \<longrightarrow>
         (\<exists>w'. vivino_lookup H L N w wine_name = (None, w')
            \<and> vivino_cache w' (py_strip wine_name) = Some None
            \<and> requests (trace w') = requests (trace w) + 7))"
proof -
  have 1: "requests (snd (fetch_vivino_search_with_backoff N ps tr)) \<le> requests tr + 6"
    using backoff_requests [of N ps tr] by (simp add: max_tries_def)
  have 2: "\<forall>t. \<exists>f. jitter_factor N t = Finite f \<and> 7656119366529843 / 2 ^ 52 \<le> f \<and> f \<le> 2"
    using jitter_factor_bounds by blast
  have 3: "rate_limited N \<longrightarrow>
        (\<exists>d1 d2 d3 d4 d5.
           fetch_vivino_search_with_backoff N ps tr =
             (None, tr @ [Sleep (Finite 0), Request VIVINO_FALLBACK_SEARCH ps,
                          Sleep (Finite d1), Request VIVINO_FALLBACK_SEARCH ps,
                          Sleep (Finite d2), Request VIVINO_FALLBACK_SEARCH ps,
                          Sleep (Finite d3), Request VIVINO_FALLBACK_SEARCH ps,
                          Sleep (Finite d4), Request VIVINO_FALLBACK_SEARCH ps,
                          Sleep (Finite d5), Request VIVINO_FALLBACK_SEARCH ps])
           \<and> grows 2 d1 \<and> grows d1 d2 \<and> grows d2 d3 \<and> grows d3 d4 \<and> grows d4 d5)"
    using backoff_all_429 by blast
  have 4: "\<forall>H L w wine_name.
         rate_limited N \<and> (\<forall>h. bing_links L h = [])
         \<and> vivino_cache w (py_strip wine_name) = None \<longrightarrow>
         (\<exists>w'. vivino_lookup H L N w wine_name = (None, w')
            \<and> vivino_cache w' (py_strip wine_name) = Some None
            \<and> requests (trace w') = requests (trace w) + 7)"
    using lookup_rate_limited by blast
  show ?thesis by (rule conjI [OF 1 conjI [OF 2 conjI [OF 3 4]]])
qed

lemma ex_rate_limited: "rate_limited always_429"
  by (simp add: rate_limited_def always_429_def)

text \<open>
  On the network that answers every request with 429, the fetch gives up after six
  requests with growing delays, and the lookup of \<open>Yarden\<close> is negative.
\<close>

theorem backoff_rate_limited_witness:
  "(\<exists>d1 d2 d3 d4 d5.
     fetch_vivino_search_with_backoff always_429 [(''q'', str ''Yarden'')] [] =
       (None, [Sleep (Finite 0), Request VIVINO_FALLBACK_SEARCH [(''q'', str ''Yarden'')],
               Sleep (Finite d1), Request VIVINO_FALLBACK_SEARCH [(''q'', str ''Yarden'')],
               Sleep (Finite d2), Request VIVINO_FALLBACK_SEARCH [(''q'', str ''Yarden'')],
               Sleep (Finite d3), Request VIVINO_FALLBACK_SEARCH [(''q'', str ''Yarden'')],
               Sleep (Finite d4), Request VIVINO_FALLBACK_SEARCH [(''q'', str ''Yarden'')],
               Sleep (Finite d5), Request VIVINO_FALLBACK_SEARCH [(''q'', str ''Yarden'')]])
     \<and> grows 2 d1 \<and> grows d1 d2 \<and> grows d2 d3 \<and> grows d3 d4 \<and> grows d4 d5)
   \<and> (\<forall>H. \<exists>w'. vivino_lookup H no_links always_429 empty_world (str ''Yarden'') = (None, w')
          \<and> vivino_cache w' (str ''Yarden'') = Some None \<and> requests (trace w') = 7)"
proof (rule conjI)
  show "\<exists>d1 d2 d3 d4 d5.
     fetch_vivino_search_with_backoff always_429 [(''q'', str ''Yarden'')] [] =
       (None, [Sleep (Finite 0), Request VIVINO_FALLBACK_SEARCH [(''q'', str ''Yarden'')],
               Sleep (Finite d1), Request VIVINO_FALLBACK_SEARCH [(''q'', str ''Yarden'')],
               Sleep (Finite d2), Request VIVINO_FALLBACK_SEARCH [(''q'', str ''Yarden'')],
               Sleep (Finite d3), Request VIVINO_FALLBACK_SEARCH [(''q'', str ''Yarden'')],
               Sleep (Finite d4), Request VIVINO_FALLBACK_SEARCH [(''q'', str ''Yarden'')],
               Sleep (Finite d5), Request VIVINO_FALLBACK_SEARCH [(''q'', str ''Yarden'')]])
     \<and> grows 2 d1 \<and> grows d1 d2 \<and> grows d2 d3 \<and> grows d3 d4 \<and> grows d4 d5"
    using backoff_rate_limited [of always_429 "[(''q'', str ''Yarden'')]" "[]",
        THEN conjunct2, THEN conjunct2, THEN conjunct1, THEN mp, OF ex_rate_limited]
    by simp
  show "\<forall>H. \<exists>w'. vivino_lookup H no_links always_429 empty_world (str ''Yarden'') = (None, w')
          \<and> vivino_cache w' (str ''Yarden'') = Some None \<and> requests (trace w') = 7"
  proof
    fix H
    have "rate_limited always_429 \<and> (\<forall>h. bing_links no_links h = [])
         \<and> vivino_cache empty_world (py_strip (str ''Yarden'')) = None"
      by (simp add: ex_rate_limited no_links_def empty_world_def)
    then have "\<exists>w'. vivino_lookup H no_links always_429 empty_world (str ''Yarden'') = (None, w')
            \<and> vivino_cache w' (py_strip (str ''Yarden'')) = Some None
            \<and> requests (trace w') = requests (trace empty_world) + 7"
      by (rule backoff_rate_limited [of always_429 "[]" "[]", THEN conjunct2, THEN conjunct2,
            THEN conjunct2, THEN spec, THEN spec, THEN spec, THEN spec, THEN mp])
    then show "\<exists>w'. vivino_lookup H no_links always_429 empty_world (str ''Yarden'') = (None, w')
          \<and> vivino_cache w' (str ''Yarden'') = Some None \<and> requests (trace w') = 7"
      by (simp add: ex_strip_Yarden_plain empty_world_def requests_def)
  qed
qed

end
